theory Spec2Isabelle
  imports Complex_Main "HOL-Library.Multiset"
begin

section \<open>Geometry collaborators\<close>

text \<open>
  \<^verbatim>\<open>qgstracer.cpp\<close> works on \<^verbatim>\<open>QgsPoint\<close> and \<^verbatim>\<open>QgsLineString\<close>, whose code lives in
  other files.  A point is a value of an arbitrary type \<open>'p\<close>, a line string is the list of
  its points, and every operation of the geometry classes that the tracer calls is a field
  of the record below, so each result about the tracer holds for every behaviour of these
  operations.  A \<^verbatim>\<open>double\<close> is idealised as a real number.

  \<^item> \<open>pointEq\<close> is \<^verbatim>\<open>QgsPoint::operator==\<close>, \<open>qHash\<close> the hash that \<^verbatim>\<open>QHash<QgsPoint, int>\<close> uses;
  \<^item> \<open>ptX\<close>, \<open>ptY\<close> are \<^verbatim>\<open>x()\<close> and \<^verbatim>\<open>y()\<close>, \<open>nullPoint\<close> is the default \<^verbatim>\<open>QgsPoint()\<close>;
  \<^item> \<open>lineLength\<close> is \<^verbatim>\<open>QgsLineString::length()\<close>;
  \<^item> \<open>closestSegment c pt eps\<close> is \<^verbatim>\<open>c.closestSegment( pt, segmentPt, vertexId, nullptr, eps )\<close>:
    the returned distance and \<^verbatim>\<open>vertexId.vertex\<close>;
  \<^item> \<open>splitAt c pt k\<close> is \<^verbatim>\<open>c.splitAt( pt, QgsVertexId( 0, 0, k ), out1, out2 )\<close>: the two runs;
  \<^item> \<open>ptDistance\<close> is \<^verbatim>\<open>QgsPoint::distance\<close>;
  \<^item> \<open>offsetCurve\<close> is the geometry engine's \<^verbatim>\<open>offsetCurve\<close> followed by the cast to a line
    string: \<open>None\<close> when the result is not a line string;
  \<^item> \<open>deleteVertex c k\<close> is the line after \<^verbatim>\<open>c.deleteVertex( QgsVertexId( 0, 0, k ) )\<close>, and
    \<open>appendLine c d\<close> the line after \<^verbatim>\<open>c.append( &d )\<close>.
\<close>

record 'p geometry =
  pointEq :: "'p \<Rightarrow> 'p \<Rightarrow> bool"
  qHash :: "'p \<Rightarrow> nat"
  ptX :: "'p \<Rightarrow> real"
  ptY :: "'p \<Rightarrow> real"
  nullPoint :: 'p
  lineLength :: "'p list \<Rightarrow> real"
  closestSegment :: "'p list \<Rightarrow> 'p \<Rightarrow> real \<Rightarrow> real \<times> int"
  splitAt :: "'p list \<Rightarrow> 'p \<Rightarrow> int \<Rightarrow> 'p list \<times> 'p list"
  ptDistance :: "'p \<Rightarrow> 'p \<Rightarrow> real"
  offsetCurve :: "'p list \<Rightarrow> real \<Rightarrow> int \<Rightarrow> int \<Rightarrow> real \<Rightarrow> 'p list option"
  deleteVertex :: "'p list \<Rightarrow> int \<Rightarrow> 'p list"
  appendLine :: "'p list \<Rightarrow> 'p list \<Rightarrow> 'p list"

text \<open>\<^verbatim>\<open>startPoint()\<close> and \<^verbatim>\<open>endPoint()\<close> of a line string: the first and the last point, the
  default point for a line without points.\<close>

definition startPoint :: "'p geometry \<Rightarrow> 'p list \<Rightarrow> 'p" where
  "startPoint G line = (case line of [] \<Rightarrow> nullPoint G | p # _ \<Rightarrow> p)"

definition endPoint :: "'p geometry \<Rightarrow> 'p list \<Rightarrow> 'p" where
  "endPoint G line = (if line = [] then nullPoint G else last line)"

section \<open>The graph\<close>

text \<open>\<^verbatim>\<open>struct QgsTracerGraph\<close> with its nested \<^verbatim>\<open>E\<close> and \<^verbatim>\<open>V\<close>.  The indices are \<^verbatim>\<open>int\<close>s in the
  source; every index the code stores comes from a \<^verbatim>\<open>count()\<close>, so they are naturals here,
  and the value \<^verbatim>\<open>-1\<close> that the lookups return for "not found" is \<open>None\<close>.  The
  \<^verbatim>\<open>QSet<int>\<close> of inactive edges is the list of its elements in insertion order; the
  order in which the set is iterated is a parameter of \<^verbatim>\<open>resetGraph\<close>.\<close>

record 'p E =
  e_v1 :: nat
  e_v2 :: nat
  e_coords :: "'p list"

record 'p V =
  v_pt :: 'p
  v_edges :: "nat list"

record 'p QgsTracerGraph =
  g_v :: "'p V list"
  g_e :: "'p E list"
  inactiveEdges :: "nat list"
  joinedVertices :: nat

definition otherVertex :: "'p E \<Rightarrow> nat \<Rightarrow> nat" where
  "otherVertex e v0 = (if e_v1 e = v0 then e_v2 e else e_v1 e)"

definition weight :: "'p geometry \<Rightarrow> 'p E \<Rightarrow> real" where
  "weight G e = lineLength G (e_coords e)"

definition emptyGraph :: "'p QgsTracerGraph" where
  "emptyGraph = \<lparr>g_v = [], g_e = [], inactiveEdges = [], joinedVertices = 0\<rparr>"

section \<open>makeGraph\<close>

text \<open>The local \<^verbatim>\<open>QHash<QgsPoint, int> point2vertex\<close> is the list of its entries in
  insertion order.  A lookup finds a stored key with the same hash that \<^verbatim>\<open>operator==\<close>
  accepts, the one entered first when there are several.\<close>

definition keyMatch :: "'p geometry \<Rightarrow> 'p \<Rightarrow> 'p \<Rightarrow> bool" where
  "keyMatch G k p = (qHash G k = qHash G p \<and> pointEq G k p)"

definition hashFind :: "'p geometry \<Rightarrow> ('p \<times> nat) list \<Rightarrow> 'p \<Rightarrow> nat option" where
  "hashFind G h p = map_option snd (find (\<lambda>kv. keyMatch G (fst kv) p) h)"

text \<open>"get or add vertex": the index stored for the point, or a new vertex appended to
  \<^verbatim>\<open>g->v\<close> and entered in the hash.\<close>

definition getOrAddVertex ::
  "'p geometry \<Rightarrow> 'p \<Rightarrow> 'p QgsTracerGraph \<times> ('p \<times> nat) list
    \<Rightarrow> nat \<times> 'p QgsTracerGraph \<times> ('p \<times> nat) list" where
  "getOrAddVertex G p s =
     (case s of (g, h) \<Rightarrow>
        (case hashFind G h p of
           Some i \<Rightarrow> (i, g, h)
         | None \<Rightarrow>
             (length (g_v g),
              g\<lparr>g_v := g_v g @ [\<lparr>v_pt = p, v_edges = []\<rparr>]\<rparr>,
              h @ [(p, length (g_v g))])))"

text \<open>\<^verbatim>\<open>g->v[i].edges << eIdx\<close>\<close>

definition linkEdge :: "nat \<Rightarrow> nat \<Rightarrow> 'p QgsTracerGraph \<Rightarrow> 'p QgsTracerGraph" where
  "linkEdge i eIdx g =
     g\<lparr>g_v := (g_v g)[i := (g_v g ! i)\<lparr>v_edges := v_edges (g_v g ! i) @ [eIdx]\<rparr>]\<rparr>"

text \<open>One iteration of the loop over the input lines.\<close>

definition makeGraph_step ::
  "'p geometry \<Rightarrow> 'p list \<Rightarrow> 'p QgsTracerGraph \<times> ('p \<times> nat) list
     \<Rightarrow> 'p QgsTracerGraph \<times> ('p \<times> nat) list" where
  "makeGraph_step G line s =
     (case getOrAddVertex G (startPoint G line) s of (a, s1) \<Rightarrow>
      (case getOrAddVertex G (endPoint G line) s1 of (b, g2, h2) \<Rightarrow>
        (let e = \<lparr>e_v1 = a, e_v2 = b, e_coords = map (\<lambda>i. line ! i) [0..<length line]\<rparr>;
             g3 = g2\<lparr>g_e := g_e g2 @ [e]\<rparr>;
             eIdx = length (g_e g3) - 1
         in (linkEdge b eIdx (linkEdge a eIdx g3), h2))))"

fun makeGraph_loop ::
  "'p geometry \<Rightarrow> 'p list list \<Rightarrow> 'p QgsTracerGraph \<times> ('p \<times> nat) list
     \<Rightarrow> 'p QgsTracerGraph \<times> ('p \<times> nat) list" where
  "makeGraph_loop G [] s = s"
| "makeGraph_loop G (line # rest) s = makeGraph_loop G rest (makeGraph_step G line s)"

definition makeGraph :: "'p geometry \<Rightarrow> 'p list list \<Rightarrow> 'p QgsTracerGraph" where
  "makeGraph G edges = fst (makeGraph_loop G edges (emptyGraph, []))"

section \<open>shortestPath\<close>

text \<open>The \<^verbatim>\<open>std::priority_queue\<close> ordered by \<^verbatim>\<open>comp\<close> is the list of its items in
  insertion order; \<^verbatim>\<open>top()\<close> is an item of least distance (the first such in the list; the
  source leaves the choice among equal distances to the heap).\<close>

type_synonym DijkstraQueueItem = "nat \<times> real"

fun queueMin :: "DijkstraQueueItem \<Rightarrow> DijkstraQueueItem list \<Rightarrow> DijkstraQueueItem" where
  "queueMin b [] = b"
| "queueMin b (x # xs) = queueMin (if snd x < snd b then x else b) xs"

definition queueTop :: "DijkstraQueueItem list \<Rightarrow> DijkstraQueueItem" where
  "queueTop Q = queueMin (hd Q) (tl Q)"

definition queuePop :: "DijkstraQueueItem list \<Rightarrow> DijkstraQueueItem list" where
  "queuePop Q = remove1 (queueTop Q) Q"

definition DBL_MAX :: real where
  "DBL_MAX = 2 ^ 1024 - 2 ^ 971"

text \<open>The inner \<^verbatim>\<open>for\<close> loop over the edges of the visited vertex \<open>u\<close>.  Reading a vector
  out of range is \<open>None\<close>.\<close>

fun relaxEdges ::
  "'p geometry \<Rightarrow> 'p QgsTracerGraph \<Rightarrow> nat \<Rightarrow> bool list \<Rightarrow> nat list
     \<Rightarrow> real list \<times> nat option list \<times> DijkstraQueueItem list
     \<Rightarrow> (real list \<times> nat option list \<times> DijkstraQueueItem list) option" where
  "relaxEdges G g u F [] st = Some st"
| "relaxEdges G g u F (ei # rest) st =
     (case st of (D, S, Q) \<Rightarrow>
        if length (g_e g) \<le> ei then None
        else if length F \<le> otherVertex (g_e g ! ei) u \<or> length D \<le> otherVertex (g_e g ! ei) u
                \<or> length S \<le> otherVertex (g_e g ! ei) u \<or> length D \<le> u then None
        else if \<not> F ! otherVertex (g_e g ! ei) u
                \<and> D ! u + weight G (g_e g ! ei) < D ! otherVertex (g_e g ! ei) u
        then relaxEdges G g u F rest
               (D[otherVertex (g_e g ! ei) u := D ! u + weight G (g_e g ! ei)],
                S[otherVertex (g_e g ! ei) u := Some ei],
                Q @ [(otherVertex (g_e g ! ei) u, D ! u + weight G (g_e g ! ei))])
        else relaxEdges G g u F rest (D, S, Q))"

text \<open>One iteration of the \<^verbatim>\<open>while ( !Q.empty() )\<close> loop.  The state is the queue, the
  vectors \<open>D\<close>, \<open>F\<close>, \<open>S\<close> and the variable \<open>u\<close>.\<close>

type_synonym dijkstraState =
  "DijkstraQueueItem list \<times> real list \<times> bool list \<times> nat option list \<times> nat option"

datatype dijkstraStepResult =
    Continue dijkstraState
  | Finished "nat option list" "nat option"
  | OutOfRange

definition dijkstraStep ::
  "'p geometry \<Rightarrow> 'p QgsTracerGraph \<Rightarrow> nat \<Rightarrow> dijkstraState \<Rightarrow> dijkstraStepResult" where
  "dijkstraStep G g v2 st =
     (case st of (Q, D, F, S, u0) \<Rightarrow>
        if Q = [] then Finished S u0
        else
          (let u = fst (queueTop Q); Q1 = queuePop Q in
             if u = v2 then Finished S (Some u)
             else if length F \<le> u then OutOfRange
             else if F ! u then Continue (Q1, D, F, S, Some u)
             else if length (g_v g) \<le> u then OutOfRange
             else
               (case relaxEdges G g u F (v_edges (g_v g ! u)) (D, S, Q1) of
                  None \<Rightarrow> OutOfRange
                | Some (D', S', Q') \<Rightarrow> Continue (Q', D', F[u := True], S', Some u))))"

definition unprocessed :: "bool list \<Rightarrow> nat" where
  "unprocessed F = length (filter Not F)"

definition dijkstraMeasure :: "dijkstraState \<Rightarrow> nat \<times> nat" where
  "dijkstraMeasure st = (case st of (Q, D, F, S, u) \<Rightarrow> (unprocessed F, length Q))"

text \<open>The loop ends: an iteration either marks one more vertex as processed, or leaves
  the marks alone and shortens the queue.\<close>

lemma queueMin_in: "queueMin b xs \<in> set (b # xs)"
  by (induction xs arbitrary: b) auto

lemma queueTop_in: "Q \<noteq> [] \<Longrightarrow> queueTop Q \<in> set Q"
  using queueMin_in [of "hd Q" "tl Q"] by (cases Q) (auto simp: queueTop_def)

lemma length_queuePop: "Q \<noteq> [] \<Longrightarrow> length (queuePop Q) < length Q"
  by (simp add: queuePop_def length_remove1 queueTop_in)

lemma unprocessed_update:
  "u < length F \<Longrightarrow> \<not> F ! u \<Longrightarrow> unprocessed (F[u := True]) < unprocessed F"
proof (induction F arbitrary: u)
  case Nil
  then show ?case by simp
next
  case (Cons b F)
  then show ?case
    by (cases u) (auto simp: unprocessed_def)
qed

lemma dijkstraStep_decreases:
  assumes "dijkstraStep G g v2 st = Continue st'"
  shows "(dijkstraMeasure st', dijkstraMeasure st) \<in> less_than <*lex*> less_than"
proof -
  obtain Q D F S u0 where st: "st = (Q, D, F, S, u0)"
    by (cases st) auto
  from assms have ne: "Q \<noteq> []"
    by (auto simp: dijkstraStep_def st split: if_splits)
  show ?thesis
    using assms ne length_queuePop [OF ne]
    by (auto simp: dijkstraStep_def st Let_def dijkstraMeasure_def unprocessed_update
        split: if_splits option.splits)
qed

function dijkstraLoop ::
  "'p geometry \<Rightarrow> 'p QgsTracerGraph \<Rightarrow> nat \<Rightarrow> dijkstraState
     \<Rightarrow> (nat option list \<times> nat option) option" where
  "dijkstraLoop G g v2 st =
     (case dijkstraStep G g v2 st of
        Continue st' \<Rightarrow> dijkstraLoop G g v2 st'
      | Finished S u \<Rightarrow> Some (S, u)
      | OutOfRange \<Rightarrow> None)"
  by pat_completeness auto
termination
  by (relation "inv_image (less_than <*lex*> less_than) (\<lambda>(G, g, v2, st). dijkstraMeasure st)")
     (auto dest: dijkstraStep_decreases)

text \<open>The loop \<^verbatim>\<open>while ( S[u] != -1 )\<close> that assembles the points.  It follows the
  predecessor edges, which never change during the walk: a walk of more steps than the
  graph has vertices has come back to a vertex and goes round for ever.  The counter \<open>k\<close>
  bounds the steps, and \<open>None\<close> is a read out of range or a walk that does not end.
  The source calls \<^verbatim>\<open>deleteVertex\<close> with the vertex number \<^verbatim>\<open>points.numPoints()\<close>.\<close>

fun buildPath ::
  "nat \<Rightarrow> 'p geometry \<Rightarrow> 'p QgsTracerGraph \<Rightarrow> nat option list \<Rightarrow> nat
     \<Rightarrow> 'p list \<Rightarrow> 'p list option" where
  "buildPath k G g S u points =
     (if length S \<le> u then None
      else
        (case S ! u of
           None \<Rightarrow> Some points
         | Some ei \<Rightarrow>
             (case k of
                0 \<Rightarrow> None
              | Suc k' \<Rightarrow>
                  if length (g_e g) \<le> ei \<or> length (g_v g) \<le> u then None
                  else
                    (let e = g_e g ! ei;
                         edgePoints =
                           (if \<not> pointEq G (startPoint G (e_coords e)) (v_pt (g_v g ! u))
                            then rev (e_coords e) else e_coords e);
                         points1 =
                           (if points \<noteq> [] then deleteVertex G points (int (length points))
                            else points)
                     in buildPath k' G g S (otherVertex e u) (appendLine G points1 edgePoints)))))"

definition shortestPath ::
  "'p geometry \<Rightarrow> 'p QgsTracerGraph \<Rightarrow> nat option \<Rightarrow> nat option
     \<Rightarrow> 'p list option" where
  "shortestPath G g v1 v2 =
     (case (v1, v2) of
        (Some a, Some b) \<Rightarrow>
          (let n = length (g_v g) in
             if n \<le> a then None
             else
               (case dijkstraLoop G g b
                       ([(a, 0)], (replicate n DBL_MAX)[a := 0], replicate n False,
                        replicate n None, None) of
                  None \<Rightarrow> None
                | Some (S, u) \<Rightarrow>
                    if u \<noteq> Some b then Some []
                    else map_option rev (buildPath n G g S b [])))
      | _ \<Rightarrow> Some [])"

section \<open>Locating a point and joining it to the graph\<close>

definition defaultEpsilon :: real where
  "defaultEpsilon = 1 / 1000000"

fun point2vertex_loop :: "'p geometry \<Rightarrow> 'p V list \<Rightarrow> nat \<Rightarrow> 'p \<Rightarrow> real \<Rightarrow> nat option" where
  "point2vertex_loop G [] i pt epsilon = None"
| "point2vertex_loop G (v # vs) i pt epsilon =
     (if pointEq G (v_pt v) pt
         \<or> (\<bar>ptX G (v_pt v) - ptX G pt\<bar> < epsilon \<and> \<bar>ptY G (v_pt v) - ptY G pt\<bar> < epsilon)
      then Some i
      else point2vertex_loop G vs (Suc i) pt epsilon)"

definition point2vertex :: "'p geometry \<Rightarrow> 'p QgsTracerGraph \<Rightarrow> 'p \<Rightarrow> real \<Rightarrow> nat option" where
  "point2vertex G g pt epsilon = point2vertex_loop G (g_v g) 0 pt epsilon"

text \<open>\<^verbatim>\<open>point2edge\<close> returns the edge index together with \<^verbatim>\<open>lineVertexAfter\<close>.\<close>

fun point2edge_loop ::
  "'p geometry \<Rightarrow> nat list \<Rightarrow> 'p E list \<Rightarrow> nat \<Rightarrow> 'p \<Rightarrow> real \<Rightarrow> (nat \<times> int) option" where
  "point2edge_loop G inactive [] i pt epsilon = None"
| "point2edge_loop G inactive (e # es) i pt epsilon =
     (if i \<in> set inactive then point2edge_loop G inactive es (Suc i) pt epsilon
      else if fst (closestSegment G (e_coords e) pt epsilon) = 0
      then Some (i, snd (closestSegment G (e_coords e) pt epsilon))
      else point2edge_loop G inactive es (Suc i) pt epsilon)"

definition point2edge ::
  "'p geometry \<Rightarrow> 'p QgsTracerGraph \<Rightarrow> 'p \<Rightarrow> real \<Rightarrow> (nat \<times> int) option" where
  "point2edge G g pt epsilon = point2edge_loop G (inactiveEdges g) (g_e g) 0 pt epsilon"

text \<open>\<^verbatim>\<open>QVector::indexOf\<close>, and \<^verbatim>\<open>edges.replace( edges.indexOf( old ), new )\<close>: replacing at
  the index \<^verbatim>\<open>-1\<close> that \<^verbatim>\<open>indexOf\<close> returns for a missing value is out of range.\<close>

fun indexOf :: "nat list \<Rightarrow> nat \<Rightarrow> nat option" where
  "indexOf [] x = None"
| "indexOf (y # ys) x = (if y = x then Some 0 else map_option Suc (indexOf ys x))"

definition replaceEdge :: "nat \<Rightarrow> nat \<Rightarrow> nat list \<Rightarrow> nat list option" where
  "replaceEdge old new es = map_option (\<lambda>i. es[i := new]) (indexOf es old)"

definition replaceEdgeAt :: "nat \<Rightarrow> nat \<Rightarrow> nat \<Rightarrow> 'p V list \<Rightarrow> 'p V list option" where
  "replaceEdgeAt i old new vs =
     (if length vs \<le> i then None
      else map_option (\<lambda>es. vs[i := (vs ! i)\<lparr>v_edges := es\<rparr>]) (replaceEdge old new (v_edges (vs ! i))))"

text \<open>\<^verbatim>\<open>g.inactiveEdges << eIdx\<close>: a set keeps one copy of an element.\<close>

definition setInsert :: "nat \<Rightarrow> nat list \<Rightarrow> nat list" where
  "setInsert x xs = (if x \<in> set xs then xs else xs @ [x])"

text \<open>\<^verbatim>\<open>joinVertexToGraph\<close> returns the graph it has changed and the index of the new
  vertex (\<open>None\<close> for \<^verbatim>\<open>-1\<close>); the outer \<open>None\<close> is an access out of range.  The references
  \<^verbatim>\<open>v1\<close> and \<^verbatim>\<open>v2\<close> may name the same vertex, so the second replacement works on the result
  of the first.\<close>

definition joinVertexToGraph ::
  "'p geometry \<Rightarrow> 'p QgsTracerGraph \<Rightarrow> 'p \<Rightarrow> ('p QgsTracerGraph \<times> nat option) option" where
  "joinVertexToGraph G g pt =
     (case point2edge G g pt defaultEpsilon of
        None \<Rightarrow> Some (g, None)
      | Some (eIdx, lineVertexAfter) \<Rightarrow>
          (let e = g_e g ! eIdx;
               out = splitAt G (e_coords e) pt lineVertexAfter;
               vIdx = length (g_v g);
               e1Idx = length (g_e g);
               e2Idx = e1Idx + 1;
               v = \<lparr>v_pt = pt, v_edges = [e1Idx, e2Idx]\<rparr>;
               e1 = \<lparr>e_v1 = e_v1 e, e_v2 = vIdx, e_coords = fst out\<rparr>;
               e2 = \<lparr>e_v1 = vIdx, e_v2 = e_v2 e, e_coords = snd out\<rparr>
           in
             (case replaceEdgeAt (e_v1 e) eIdx e1Idx (g_v g) of
                None \<Rightarrow> None
              | Some vs1 \<Rightarrow>
                  (case replaceEdgeAt (e_v2 e) eIdx e2Idx vs1 of
                     None \<Rightarrow> None
                   | Some vs2 \<Rightarrow>
                       Some (\<lparr>g_v = vs2 @ [v], g_e = g_e g @ [e1, e2],
                              inactiveEdges = setInsert eIdx (inactiveEdges g),
                              joinedVertices = joinedVertices g + 1\<rparr>,
                             Some vIdx)))))"

definition pointInGraph ::
  "'p geometry \<Rightarrow> 'p QgsTracerGraph \<Rightarrow> 'p \<Rightarrow> ('p QgsTracerGraph \<times> nat option) option" where
  "pointInGraph G g pt =
     (case point2vertex G g pt defaultEpsilon of
        Some v \<Rightarrow> Some (g, Some v)
      | None \<Rightarrow> joinVertexToGraph G g pt)"

section \<open>resetGraph\<close>

text \<open>The two inner loops drop from a vertex's edge list every index that is no longer
  an edge, then the restored edge is appended.\<close>

definition restoreEdgeAt :: "nat \<Rightarrow> nat \<Rightarrow> nat \<Rightarrow> 'p V list \<Rightarrow> 'p V list option" where
  "restoreEdgeAt i eCount eIdx vs =
     (if length vs \<le> i then None
      else Some (vs[i := (vs ! i)\<lparr>v_edges := filter (\<lambda>x. x < eCount) (v_edges (vs ! i)) @ [eIdx]\<rparr>]))"

fun resetGraph_loop :: "'p E list \<Rightarrow> nat list \<Rightarrow> 'p V list \<Rightarrow> 'p V list option" where
  "resetGraph_loop es [] vs = Some vs"
| "resetGraph_loop es (eIdx # rest) vs =
     (if length es \<le> eIdx then resetGraph_loop es rest vs
      else
        (case restoreEdgeAt (e_v1 (es ! eIdx)) (length es) eIdx vs of
           None \<Rightarrow> None
         | Some vs1 \<Rightarrow>
             (case restoreEdgeAt (e_v2 (es ! eIdx)) (length es) eIdx vs1 of
                None \<Rightarrow> None
              | Some vs2 \<Rightarrow> resetGraph_loop es rest vs2)))"

text \<open>A \<^verbatim>\<open>resize\<close> to a negative size is out of range.  The order in which the loop
  visits the \<^verbatim>\<open>QSet\<close> of inactive edges is the order of its hash table, which the source
  does not fix: the loop visits the elements by ascending \<open>rank\<close>, any function, and
  elements of equal rank in the order of their insertion.\<close>

definition resetGraph :: "(nat \<Rightarrow> nat) \<Rightarrow> 'p QgsTracerGraph \<Rightarrow> 'p QgsTracerGraph option" where
  "resetGraph rank g =
     (if length (g_v g) < joinedVertices g \<or> length (g_e g) < joinedVertices g * 2 then None
      else
        (let vs = take (length (g_v g) - joinedVertices g) (g_v g);
             es = take (length (g_e g) - joinedVertices g * 2) (g_e g)
         in map_option (\<lambda>vs'. \<lparr>g_v = vs', g_e = es, inactiveEdges = [], joinedVertices = 0\<rparr>)
              (resetGraph_loop es (sort_key rank (inactiveEdges g)) vs)))"

section \<open>The tracer session\<close>

text \<open>The members of \<^verbatim>\<open>QgsTracer\<close> that \<^verbatim>\<open>qgstracer.cpp\<close> reads and writes.  A layer is
  the address of a \<^verbatim>\<open>QgsVectorLayer\<close>, the coordinate reference system is its identifier,
  the transform context and the render context are opaque numbers; \<open>mGraph\<close> and
  \<open>mRenderContext\<close> are owning pointers, \<open>None\<close> when null.\<close>

record QgsRectangle =
  xMinimum :: real
  yMinimum :: real
  xMaximum :: real
  yMaximum :: real

record 'p QgsTracer =
  mGraph :: "'p QgsTracerGraph option"
  mLayers :: "nat list"
  mCRS :: string
  mTransformContext :: nat
  mRenderContext :: "nat option"
  mExtent :: QgsRectangle
  mOffset :: real
  mOffsetSegments :: int
  mOffsetJoinStyle :: int
  mOffsetMiterLimit :: real
  mMaxFeatureCount :: int
  mHasTopologyProblem :: bool

text \<open>What a session gets from outside this file: the geometry, \<^verbatim>\<open>QgsRectangle::operator==\<close>,
  the rank that orders the iteration of a \<^verbatim>\<open>QSet<int>\<close>, and the feature feed.
  \<open>layerFeatures t l\<close> is the sequence of the features of layer \<open>l\<close> that pass the request
  and the renderer's filter under the configuration of \<open>t\<close> and have a geometry, each as
  the line strings that \<^verbatim>\<open>extractLinework\<close> adds for it.\<close>

record 'p collaborators =
  geom :: "'p geometry"
  rectEq :: "QgsRectangle \<Rightarrow> QgsRectangle \<Rightarrow> bool"
  qsetRank :: "nat \<Rightarrow> nat"
  layerFeatures :: "'p QgsTracer \<Rightarrow> nat \<Rightarrow> 'p list list list"

datatype PathError = ErrNone | ErrTooManyFeatures | ErrPoint1 | ErrPoint2 | ErrNoPath

text \<open>The feature loop of \<^verbatim>\<open>initGraph\<close>.  The counter runs over all layers and the
  \<^verbatim>\<open>return false\<close> leaves both loops, so the loop is over the features of all layers in
  sequence; \<open>None\<close> is the \<^verbatim>\<open>return false\<close>.\<close>

fun extractFeatures :: "int \<Rightarrow> 'p list list list \<Rightarrow> int \<Rightarrow> 'p list list \<Rightarrow> 'p list list option" where
  "extractFeatures maxCount [] featuresCounted mpl = Some mpl"
| "extractFeatures maxCount (f # fs) featuresCounted mpl =
     (if maxCount \<noteq> 0 \<and> maxCount \<le> featuresCounted + 1 then None
      else extractFeatures maxCount fs (featuresCounted + 1) (mpl @ f))"

definition invalidateGraph :: "'p QgsTracer \<Rightarrow> 'p QgsTracer" where
  "invalidateGraph t = t\<lparr>mGraph := None\<rparr>"

definition initGraph :: "'p collaborators \<Rightarrow> 'p QgsTracer \<Rightarrow> bool \<times> 'p QgsTracer" where
  "initGraph C t =
     (if mGraph t \<noteq> None then (True, t)
      else
        (let t1 = t\<lparr>mHasTopologyProblem := False\<rparr> in
           case extractFeatures (mMaxFeatureCount t1)
                  (concat (map (layerFeatures C t1) (mLayers t1))) 0 [] of
             None \<Rightarrow> (False, t1)
           | Some mpl \<Rightarrow> (True, t1\<lparr>mGraph := Some (makeGraph (geom C) mpl)\<rparr>)))"

text \<open>\<^verbatim>\<open>init\<close>; the virtual \<^verbatim>\<open>configure()\<close> of the base class does nothing.\<close>

definition init :: "'p collaborators \<Rightarrow> 'p QgsTracer \<Rightarrow> bool \<times> 'p QgsTracer" where
  "init C t = (if mGraph t \<noteq> None then (True, t) else initGraph C t)"

definition setLayers :: "nat list \<Rightarrow> 'p QgsTracer \<Rightarrow> 'p QgsTracer" where
  "setLayers layers t = (if mLayers t = layers then t else invalidateGraph (t\<lparr>mLayers := layers\<rparr>))"

definition setDestinationCrs :: "string \<Rightarrow> nat \<Rightarrow> 'p QgsTracer \<Rightarrow> 'p QgsTracer" where
  "setDestinationCrs crs context t = invalidateGraph (t\<lparr>mCRS := crs, mTransformContext := context\<rparr>)"

definition setRenderContext :: "nat \<Rightarrow> 'p QgsTracer \<Rightarrow> 'p QgsTracer" where
  "setRenderContext renderContext t = invalidateGraph (t\<lparr>mRenderContext := Some renderContext\<rparr>)"

definition setExtent :: "'p collaborators \<Rightarrow> QgsRectangle \<Rightarrow> 'p QgsTracer \<Rightarrow> 'p QgsTracer" where
  "setExtent C extent t =
     (if rectEq C (mExtent t) extent then t else invalidateGraph (t\<lparr>mExtent := extent\<rparr>))"

definition setOffset :: "real \<Rightarrow> 'p QgsTracer \<Rightarrow> 'p QgsTracer" where
  "setOffset offset t = t\<lparr>mOffset := offset\<rparr>"

definition setOffsetParameters :: "int \<Rightarrow> int \<Rightarrow> real \<Rightarrow> 'p QgsTracer \<Rightarrow> 'p QgsTracer" where
  "setOffsetParameters quadSegments joinStyle miterLimit t =
     t\<lparr>mOffsetSegments := quadSegments, mOffsetJoinStyle := joinStyle,
       mOffsetMiterLimit := miterLimit\<rparr>"

text \<open>The block of \<^verbatim>\<open>findShortestPath\<close> under \<^verbatim>\<open>if ( !points.isEmpty() && mOffset != 0 )\<close>.\<close>

definition applyOffset :: "'p geometry \<Rightarrow> 'p QgsTracer \<Rightarrow> 'p \<Rightarrow> 'p \<Rightarrow> 'p list \<Rightarrow> 'p list" where
  "applyOffset G t p1 p2 points =
     (if points \<noteq> [] \<and> mOffset t \<noteq> 0 then
        (case offsetCurve G points (mOffset t) (mOffsetSegments t) (mOffsetJoinStyle t)
                (mOffsetMiterLimit t) of
           None \<Rightarrow> points
         | Some ls2 \<Rightarrow>
             (let points2 = map (\<lambda>i. ls2 ! i) [0..<length ls2] in
                if 2 \<le> length points2 then
                  (let res1 = startPoint G points2;
                       res2 = endPoint G points2;
                       diffNormal = ptDistance G res1 p1 + ptDistance G res2 p2;
                       diffReversed = ptDistance G res1 p2 + ptDistance G res2 p1
                   in if diffReversed < diffNormal then rev points2 else points2)
                else points2))
      else points)"

text \<open>\<^verbatim>\<open>findShortestPath\<close> returns the session, the points and the value written to
  \<^verbatim>\<open>*error\<close>; \<open>None\<close> is an access out of range or a walk that does not end.  The body
  takes the solver it calls as an argument, so that a result can be shown not to depend on
  the solver.\<close>

definition findShortestPathBody ::
  "('p geometry \<Rightarrow> 'p QgsTracerGraph \<Rightarrow> nat option \<Rightarrow> nat option \<Rightarrow> 'p list option)
     \<Rightarrow> 'p collaborators \<Rightarrow> 'p QgsTracer \<Rightarrow> 'p \<Rightarrow> 'p
     \<Rightarrow> ('p QgsTracer \<times> 'p list \<times> PathError) option" where
  "findShortestPathBody solver C t p1 p2 =
     (let t0 = snd (init C t) in
        case mGraph t0 of
          None \<Rightarrow> Some (t0, [], ErrTooManyFeatures)
        | Some g \<Rightarrow>
            (case pointInGraph (geom C) g p1 of
               None \<Rightarrow> None
             | Some (g1, v1) \<Rightarrow>
                 (case pointInGraph (geom C) g1 p2 of
                    None \<Rightarrow> None
                  | Some (g2, v2) \<Rightarrow>
                      if v1 = None then Some (t0\<lparr>mGraph := Some g2\<rparr>, [], ErrPoint1)
                      else if v2 = None then Some (t0\<lparr>mGraph := Some g2\<rparr>, [], ErrPoint2)
                      else
                        (case solver (geom C) g2 v1 v2 of
                           None \<Rightarrow> None
                         | Some points \<Rightarrow>
                             (case resetGraph (qsetRank C) g2 of
                                None \<Rightarrow> None
                              | Some g3 \<Rightarrow>
                                  (let points' = applyOffset (geom C) t0 p1 p2 points in
                                     Some (t0\<lparr>mGraph := Some g3\<rparr>, points',
                                           if points' = [] then ErrNoPath else ErrNone)))))))"

definition findShortestPath ::
  "'p collaborators \<Rightarrow> 'p QgsTracer \<Rightarrow> 'p \<Rightarrow> 'p \<Rightarrow> ('p QgsTracer \<times> 'p list \<times> PathError) option" where
  "findShortestPath C t p1 p2 = findShortestPathBody shortestPath C t p1 p2"

section \<open>A geometry to run the tracer on\<close>

text \<open>Modelled from the spec: the geometry classes are not in \<^verbatim>\<open>qgstracer.cpp\<close>.  The
  planar geometry below is the one the spec describes, on exact real coordinates: a point
  is its pair of coordinates and \<^verbatim>\<open>operator==\<close> is equality of the pairs; the length of a
  line is the sum of the Euclidean lengths of its segments; \<^verbatim>\<open>closestSegment\<close> returns the
  least squared distance from the point to a segment of the line, and zero once that
  squared distance is within epsilon, with the number of the vertex that ends the segment;
  \<^verbatim>\<open>splitAt\<close> cuts the line before that vertex and puts the point at the cut unless it is
  already there.  It serves to evaluate the tracer on concrete inputs; the theorems about
  the tracer hold for every geometry.\<close>

type_synonym point = "real \<times> real"

text \<open>The Euclidean length of a segment; the first two cases are the value of the square
  root for a segment parallel to an axis.\<close>

definition segmentLength :: "point \<Rightarrow> point \<Rightarrow> real" where
  "segmentLength p q =
     (if snd p = snd q then \<bar>fst q - fst p\<bar>
      else if fst p = fst q then \<bar>snd q - snd p\<bar>
      else sqrt ((fst q - fst p)\<^sup>2 + (snd q - snd p)\<^sup>2))"

fun planarLength :: "point list \<Rightarrow> real" where
  "planarLength (p # q # rest) = segmentLength p q + planarLength (q # rest)"
| "planarLength _ = 0"

definition sqrDistToLine :: "point \<Rightarrow> point \<Rightarrow> point \<Rightarrow> real \<Rightarrow> real" where
  "sqrDistToLine pt a b epsilon =
     (let dx = fst b - fst a;
          dy = snd b - snd a;
          t = (if dx = 0 \<and> dy = 0 then 0
               else ((fst pt - fst a) * dx + (snd pt - snd a) * dy) / (dx * dx + dy * dy));
          m = (if 1 < t then b else if 0 < t then (fst a + dx * t, snd a + dy * t) else a);
          d = (fst pt - fst m) * (fst pt - fst m) + (snd pt - snd m) * (snd pt - snd m)
      in if d \<le> epsilon then 0 else d)"

fun planarClosest :: "point \<Rightarrow> real \<Rightarrow> point list \<Rightarrow> int \<Rightarrow> real \<times> int \<Rightarrow> real \<times> int" where
  "planarClosest pt epsilon (a # b # rest) i best =
     planarClosest pt epsilon (b # rest) (i + 1)
       (if sqrDistToLine pt a b epsilon \<le> fst best then (sqrDistToLine pt a b epsilon, i) else best)"
| "planarClosest pt epsilon _ i best = best"

definition planarClosestSegment :: "point list \<Rightarrow> point \<Rightarrow> real \<Rightarrow> real \<times> int" where
  "planarClosestSegment c pt epsilon =
     (if length c < 2 then (- 1, 0) else planarClosest pt epsilon c 1 (DBL_MAX, 0))"

definition planarSplitAt :: "point list \<Rightarrow> point \<Rightarrow> int \<Rightarrow> point list \<times> point list" where
  "planarSplitAt c pt k =
     (if k < 1 \<or> int (length c) \<le> k then ([], [])
      else (take (nat k) c @ (if c ! (nat k - 1) \<noteq> pt then [pt] else []),
            (if pt \<noteq> c ! nat k then [pt] else []) @ drop (nat k) c))"

definition planarDeleteVertex :: "point list \<Rightarrow> int \<Rightarrow> point list" where
  "planarDeleteVertex c k =
     (if k < 0 \<or> int (length c) \<le> k then c else take (nat k) c @ drop (nat k + 1) c)"

definition planarAppend :: "point list \<Rightarrow> point list \<Rightarrow> point list" where
  "planarAppend c d = (if c \<noteq> [] \<and> d \<noteq> [] \<and> last c = hd d then butlast c @ d else c @ d)"

text \<open>The offset curve of a line that runs along the x axis towards greater x: the line
  moved to its left by the distance, and to its right and reversed for a negative
  distance.  No other line has an offset curve here.\<close>

definition planarOffsetCurve :: "point list \<Rightarrow> real \<Rightarrow> int \<Rightarrow> int \<Rightarrow> real \<Rightarrow> point list option" where
  "planarOffsetCurve c d segments joinStyle miterLimit =
     (if 2 \<le> length c \<and> (\<forall>p \<in> set c. snd p = snd (hd c)) \<and> sorted (map fst c) then
        Some (if 0 \<le> d then map (\<lambda>p. (fst p, snd p + d)) c
              else rev (map (\<lambda>p. (fst p, snd p + d)) c))
      else None)"

definition planar :: "point geometry" where
  "planar =
     \<lparr>pointEq = (\<lambda>p q. p = q), qHash = (\<lambda>p. 0), ptX = fst, ptY = snd, nullPoint = (0, 0),
      lineLength = planarLength, closestSegment = planarClosestSegment,
      splitAt = planarSplitAt, ptDistance = segmentLength, offsetCurve = planarOffsetCurve,
      deleteVertex = planarDeleteVertex, appendLine = planarAppend\<rparr>"

text \<open>A session over the planar geometry whose only layer, number 1, has the given line
  strings, one feature each, whatever the configuration.\<close>

definition planarSession :: "point list list \<Rightarrow> point collaborators" where
  "planarSession ls =
     \<lparr>geom = planar, rectEq = (\<lambda>r s. r = s), qsetRank = (\<lambda>i. i),
      layerFeatures = (\<lambda>t l. if l = 1 then map (\<lambda>line. [line]) ls else [])\<rparr>"

definition newTracer :: "point QgsTracer" where
  "newTracer =
     \<lparr>mGraph = None, mLayers = [1], mCRS = [], mTransformContext = 0, mRenderContext = None,
      mExtent = \<lparr>xMinimum = 0, yMinimum = 0, xMaximum = 0, yMaximum = 0\<rparr>,
      mOffset = 0, mOffsetSegments = 8, mOffsetJoinStyle = 2, mOffsetMiterLimit = 2,
      mMaxFeatureCount = 0, mHasTopologyProblem = False\<rparr>"

text \<open>The session after its first \<^verbatim>\<open>init\<close>.\<close>

definition builtTracer :: "point list list \<Rightarrow> point QgsTracer" where
  "builtTracer ls = snd (init (planarSession ls) newTracer)"

text \<open>The definitions that a run on a concrete input unfolds.\<close>

lemmas run_defs =
  findShortestPath_def findShortestPathBody_def init_def initGraph_def planarSession_def
  newTracer_def builtTracer_def makeGraph_def makeGraph_step_def getOrAddVertex_def hashFind_def
  keyMatch_def linkEdge_def emptyGraph_def startPoint_def endPoint_def planar_def
  pointInGraph_def point2vertex_def point2edge_def joinVertexToGraph_def defaultEpsilon_def
  shortestPath_def resetGraph_def applyOffset_def planarClosestSegment_def sqrDistToLine_def
  planarSplitAt_def replaceEdgeAt_def replaceEdge_def setInsert_def restoreEdgeAt_def
  dijkstraStep_def queueTop_def queuePop_def otherVertex_def weight_def segmentLength_def
  DBL_MAX_def Let_def planarDeleteVertex_def planarAppend_def

lemma builtTracer_graph:
  "builtTracer ls = newTracer\<lparr>mGraph := Some (makeGraph planar (concat (map (\<lambda>line. [line]) ls)))\<rparr>"
proof -
  have "extractFeatures 0 fs n mpl = Some (mpl @ concat fs)" for fs :: "point list list list" and n mpl
    by (induction fs arbitrary: n mpl) simp_all
  then show ?thesis
    by (simp add: builtTracer_def init_def initGraph_def planarSession_def newTracer_def)
qed

section \<open>The graph that makeGraph builds\<close>

text \<open>The end points of the input lines, in the order in which \<^verbatim>\<open>makeGraph\<close> looks them up.\<close>

definition endpoints :: "'p geometry \<Rightarrow> 'p list list \<Rightarrow> 'p list" where
  "endpoints G ls = concat (map (\<lambda>line. [startPoint G line, endPoint G line]) ls)"

lemma hashFind_None_iff: "hashFind G h p = None \<longleftrightarrow> (\<forall>kv \<in> set h. \<not> keyMatch G (fst kv) p)"
  by (auto simp: hashFind_def find_None_iff)

lemma linkEdge_sizes [simp]:
  "length (g_v (linkEdge i e g)) = length (g_v g)" "g_e (linkEdge i e g) = g_e g"
  by (simp_all add: linkEdge_def)

lemma makeGraph_step_fresh:
  assumes "\<forall>kv \<in> set h. \<not> keyMatch G (fst kv) (startPoint G line)"
    and "\<forall>kv \<in> set h. \<not> keyMatch G (fst kv) (endPoint G line)"
    and "\<not> keyMatch G (startPoint G line) (endPoint G line)"
  shows "\<exists>g'. makeGraph_step G line (g, h)
            = (g', h @ [(startPoint G line, length (g_v g)), (endPoint G line, length (g_v g) + 1)])
          \<and> length (g_v g') = length (g_v g) + 2 \<and> length (g_e g') = length (g_e g) + 1"
proof -
  have a: "hashFind G h (startPoint G line) = None"
    using assms(1) by (simp add: hashFind_None_iff)
  have b: "hashFind G (h @ [(startPoint G line, length (g_v g))]) (endPoint G line) = None"
    using assms(2,3) by (simp add: hashFind_None_iff)
  show ?thesis
    by (simp add: makeGraph_step_def getOrAddVertex_def a b Let_def)
qed

lemma makeGraph_loop_fresh:
  assumes "sorted_wrt (\<lambda>k p. \<not> keyMatch G k p) (map fst h @ endpoints G ls)"
  shows "length (g_v (fst (makeGraph_loop G ls (g, h)))) = length (g_v g) + 2 * length ls
       \<and> length (g_e (fst (makeGraph_loop G ls (g, h)))) = length (g_e g) + length ls"
  using assms
proof (induction ls arbitrary: g h)
  case Nil
  then show ?case by simp
next
  case (Cons line ls)
  let ?s = "startPoint G line" and ?e = "endPoint G line"
  from Cons.prems have sw: "sorted_wrt (\<lambda>k p. \<not> keyMatch G k p) (map fst h @ ?s # ?e # endpoints G ls)"
    by (simp add: endpoints_def)
  have f1: "\<forall>kv \<in> set h. \<not> keyMatch G (fst kv) ?s" "\<forall>kv \<in> set h. \<not> keyMatch G (fst kv) ?e"
    "\<not> keyMatch G ?s ?e"
    using sw by (auto simp: sorted_wrt_append)
  from makeGraph_step_fresh [OF f1, of g] obtain g' where
    st: "makeGraph_step G line (g, h) = (g', h @ [(?s, length (g_v g)), (?e, length (g_v g) + 1)])"
    and sz: "length (g_v g') = length (g_v g) + 2" "length (g_e g') = length (g_e g) + 1"
    by blast
  have "sorted_wrt (\<lambda>k p. \<not> keyMatch G k p)
          (map fst (h @ [(?s, length (g_v g)), (?e, length (g_v g) + 1)]) @ endpoints G ls)"
    using sw by simp
  from Cons.IH [OF this, of g'] show ?case
    by (simp add: st sz)
qed

text \<open>Claim C3, as amended.  \<^verbatim>\<open>makeGraph\<close> makes a vertex for the start point and for the
  end point of a line and for no other of its points.  When no end point of the input
  matches, as a key of the hash, an end point looked up before it (the lines share no
  end points and none is closed), the graph has two vertices for each line, and as many
  edges as there are lines.\<close>

theorem makeGraph_counts:
  assumes "sorted_wrt (\<lambda>k p. \<not> keyMatch G k p) (endpoints G ls)"
  shows "length (g_v (makeGraph G ls)) = 2 * length ls \<and> length (g_e (makeGraph G ls)) = length ls"
  using makeGraph_loop_fresh [of G "[]" ls emptyGraph] assms
  by (simp add: makeGraph_def emptyGraph_def)

theorem makeGraph_counts_witness:
  "sorted_wrt (\<lambda>k p. \<not> keyMatch planar k p) (endpoints planar [[(0,0),(5,0),(10,0)], [(0,1),(7,1)]])
   \<and> length (g_v (makeGraph planar [[(0,0),(5,0),(10,0)], [(0,1),(7,1)]]))
       = 2 * length [[(0,0),(5,0),(10,0)], [(0::real,1::real),(7,1)]]
   \<and> length (g_e (makeGraph planar [[(0,0),(5,0),(10,0)], [(0,1),(7,1)]]))
       = length [[(0,0),(5,0),(10,0)], [(0::real,1::real),(7,1)]]"
  using makeGraph_counts [of planar "[[(0,0),(5,0),(10,0)], [(0,1),(7,1)]]"]
  by (simp add: endpoints_def startPoint_def endPoint_def keyMatch_def planar_def)

text \<open>Claim C3 as the spec states it fails: the single line from (0,0) over (5,0) to
  (10,0) has three points, and its graph has two vertices.\<close>

theorem makeGraph_vertices_counterexample:
  "length (g_v (makeGraph planar [[(0,0),(5,0),(10,0)]])) = 2
   \<and> sum_list (map length [[(0::real,0::real),(5,0),(10,0)]]) = 3"
  by (simp add: run_defs)

section \<open>The setters\<close>

text \<open>Claim C10.  \<^verbatim>\<open>setOffset\<close> and \<^verbatim>\<open>setOffsetParameters\<close> store the offset parameters and
  leave the cached graph as it is.  \<^verbatim>\<open>setLayers\<close> with another list of layers, \<^verbatim>\<open>setExtent\<close>
  with a rectangle that \<^verbatim>\<open>operator==\<close> tells from the stored one, and every call of
  \<^verbatim>\<open>setDestinationCrs\<close> and of \<^verbatim>\<open>setRenderContext\<close> discard the cached graph.\<close>

theorem setters_and_cached_graph:
  "mGraph (setOffset offset t) = mGraph t
   \<and> mGraph (setOffsetParameters quadSegments joinStyle miterLimit t) = mGraph t
   \<and> mOffset (setOffset offset t) = offset
   \<and> mOffsetSegments (setOffsetParameters quadSegments joinStyle miterLimit t) = quadSegments
   \<and> mOffsetJoinStyle (setOffsetParameters quadSegments joinStyle miterLimit t) = joinStyle
   \<and> mOffsetMiterLimit (setOffsetParameters quadSegments joinStyle miterLimit t) = miterLimit
   \<and> (mLayers t \<noteq> layers \<longrightarrow> mGraph (setLayers layers t) = None)
   \<and> mGraph (setDestinationCrs crs context t) = None
   \<and> mGraph (setRenderContext renderContext t) = None
   \<and> (\<not> rectEq C (mExtent t) extent \<longrightarrow> mGraph (setExtent C extent t) = None)"
  by (simp add: setOffset_def setOffsetParameters_def setLayers_def setDestinationCrs_def
      setRenderContext_def setExtent_def invalidateGraph_def)

theorem setters_and_cached_graph_witness:
  "mGraph (builtTracer [[(0,0),(10,0)]]) \<noteq> None
   \<and> mGraph (setOffset 2 (builtTracer [[(0,0),(10,0)]])) = mGraph (builtTracer [[(0,0),(10,0)]])
   \<and> mGraph (setOffsetParameters 4 1 3 (builtTracer [[(0,0),(10,0)]]))
       = mGraph (builtTracer [[(0,0),(10,0)]])
   \<and> mLayers (builtTracer [[(0,0),(10,0)]]) \<noteq> [1, 2]
   \<and> mGraph (setLayers [1, 2] (builtTracer [[(0,0),(10,0)]])) = None
   \<and> \<not> rectEq (planarSession [[(0,0),(10,0)]]) (mExtent (builtTracer [[(0,0),(10,0)]]))
         \<lparr>xMinimum = 0, yMinimum = 0, xMaximum = 5, yMaximum = 5\<rparr>
   \<and> mGraph (setExtent (planarSession [[(0,0),(10,0)]])
         \<lparr>xMinimum = 0, yMinimum = 0, xMaximum = 5, yMaximum = 5\<rparr> (builtTracer [[(0,0),(10,0)]])) = None"
  using setters_and_cached_graph [of 2 "builtTracer [[(0,0),(10,0)]]" 4 1 3 "[1, 2]" "[]" 0 0
      "planarSession [[(0,0),(10,0)]]" "\<lparr>xMinimum = 0, yMinimum = 0, xMaximum = 5, yMaximum = 5\<rparr>"]
  by (simp add: builtTracer_graph) (simp add: newTracer_def planarSession_def)

section \<open>A query from a vertex to itself\<close>

lemma point2vertex_loop_bound:
  "point2vertex_loop G vs k pt eps = Some i \<Longrightarrow> k \<le> i \<and> i < k + length vs"
proof (induction vs arbitrary: k)
  case Nil
  then show ?case by simp
next
  case (Cons v vs)
  show ?case
  proof (cases "point2vertex_loop G (v # vs) k pt eps = Some k")
    case True
    with Cons.prems show ?thesis by simp
  next
    case False
    with Cons.prems have "point2vertex_loop G vs (Suc k) pt eps = Some i"
      by (simp split: if_splits)
    from Cons.IH [OF this] show ?thesis by simp
  qed
qed

lemma point2vertex_bound: "point2vertex G g pt eps = Some i \<Longrightarrow> i < length (g_v g)"
  using point2vertex_loop_bound [of G "g_v g" 0 pt eps i] by (simp add: point2vertex_def)

text \<open>The first item popped is the source; when it is the target too the loop breaks,
  every \<^verbatim>\<open>S[u]\<close> is still \<^verbatim>\<open>-1\<close>, and the walk adds no point.\<close>

lemma shortestPath_same:
  assumes "i < length (g_v g)"
  shows "shortestPath G g (Some i) (Some i) = Some []"
proof -
  have "dijkstraStep G g i ([(i, 0)], (replicate (length (g_v g)) DBL_MAX)[i := 0],
          replicate (length (g_v g)) False, replicate (length (g_v g)) None, None)
        = Finished (replicate (length (g_v g)) None) (Some i)"
    by (simp add: dijkstraStep_def queueTop_def)
  then have "dijkstraLoop G g i ([(i, 0)], (replicate (length (g_v g)) DBL_MAX)[i := 0],
          replicate (length (g_v g)) False, replicate (length (g_v g)) None, None)
        = Some (replicate (length (g_v g)) None, Some i)"
    by simp
  then show ?thesis
    using assms by (simp add: shortestPath_def Let_def)
qed

text \<open>Claim C5, as amended.  In a session with a cached graph, a query from a point that
  \<^verbatim>\<open>point2vertex\<close> finds among the vertices to the same point returns no points and the
  error \<^verbatim>\<open>ErrNoPath\<close>: the result of the solver is empty, and \<^verbatim>\<open>findShortestPath\<close> reports
  every empty result as \<^verbatim>\<open>ErrNoPath\<close>.  The cached graph afterwards is what \<^verbatim>\<open>resetGraph\<close>
  makes of it.\<close>

theorem findShortestPath_same_vertex:
  assumes "mGraph t = Some g"
    and "point2vertex (geom C) g p defaultEpsilon = Some i"
    and "resetGraph (qsetRank C) g = Some g'"
  shows "findShortestPath C t p p = Some (t\<lparr>mGraph := Some g'\<rparr>, [], ErrNoPath)"
proof -
  have i: "i < length (g_v g)"
    using assms(2) by (rule point2vertex_bound)
  have pig: "pointInGraph (geom C) g p = Some (g, Some i)"
    by (simp add: pointInGraph_def assms(2))
  show ?thesis
    by (simp add: findShortestPath_def findShortestPathBody_def init_def assms(1,3) pig
        shortestPath_same [OF i] applyOffset_def)
qed

theorem findShortestPath_same_vertex_witness:
  "mGraph (builtTracer [[(0,0),(10,0)]]) = Some (makeGraph planar [[(0,0),(10,0)]])
   \<and> point2vertex (geom (planarSession [[(0,0),(10,0)]])) (makeGraph planar [[(0,0),(10,0)]])
        (10,0) defaultEpsilon = Some 1
   \<and> resetGraph (qsetRank (planarSession [[(0,0),(10,0)]])) (makeGraph planar [[(0,0),(10,0)]])
       = Some (makeGraph planar [[(0,0),(10,0)]])
   \<and> findShortestPath (planarSession [[(0,0),(10,0)]]) (builtTracer [[(0,0),(10,0)]]) (10,0) (10,0)
       = Some (builtTracer [[(0,0),(10,0)]], [], ErrNoPath)"
proof -
  have a: "mGraph (builtTracer [[(0,0),(10,0)]]) = Some (makeGraph planar [[(0,0),(10,0)]])"
    by (simp add: builtTracer_graph)
  have b: "point2vertex (geom (planarSession [[(0,0),(10,0)]])) (makeGraph planar [[(0,0),(10,0)]])
        (10,0) defaultEpsilon = Some 1"
    by (simp add: run_defs)
  have c: "resetGraph (qsetRank (planarSession [[(0,0),(10,0)]])) (makeGraph planar [[(0,0),(10,0)]])
       = Some (makeGraph planar [[(0,0),(10,0)]])"
    by (simp add: run_defs)
  have d: "(builtTracer [[(0,0),(10,0)]])\<lparr>mGraph := Some (makeGraph planar [[(0,0),(10,0)]])\<rparr>
      = builtTracer [[(0,0),(10,0)]]"
    by (simp add: builtTracer_graph)
  from findShortestPath_same_vertex [OF a b c] a b c d show ?thesis
    by simp
qed

text \<open>Claim C5 as the spec states it fails: on the graph of the line from (0,0) to (10,0)
  the point (0,0) is vertex 0, and the query from (0,0) to (0,0) returns no points with
  the error \<^verbatim>\<open>ErrNoPath\<close>, not \<^verbatim>\<open>ErrNone\<close>.\<close>

theorem findShortestPath_same_vertex_counterexample:
  "point2vertex planar (makeGraph planar [[(0,0),(10,0)]]) (0,0) defaultEpsilon = Some 0
   \<and> map_option snd (findShortestPath (planarSession [[(0,0),(10,0)]]) (builtTracer [[(0,0),(10,0)]])
        (0,0) (0,0)) = Some ([], ErrNoPath)"
  by (simp add: run_defs)

section \<open>Well-formed graphs, splices and their revert\<close>

text \<open>How often vertex \<open>a\<close> is an end of edge \<open>e\<close>: twice for a loop at \<open>a\<close>.\<close>

definition incidence :: "'p E \<Rightarrow> nat \<Rightarrow> nat" where
  "incidence e a = (if e_v1 e = a then 1 else 0) + (if e_v2 e = a then 1 else 0)"

text \<open>The invariant of the graph data: the ends of every edge are vertices; the edge list
  of a vertex holds exactly the edges that are not inactive and end at the vertex, a loop
  twice, and nothing else; the inactive edges are edges, each listed once.\<close>

definition wfGraph :: "'p QgsTracerGraph \<Rightarrow> bool" where
  "wfGraph g \<longleftrightarrow>
     (\<forall>e \<in> set (g_e g). e_v1 e < length (g_v g) \<and> e_v2 e < length (g_v g))
     \<and> (\<forall>a < length (g_v g). \<forall>j.
           count (mset (v_edges (g_v g ! a))) j
             = (if j < length (g_e g) \<and> j \<notin> set (inactiveEdges g) then incidence (g_e g ! j) a else 0))
     \<and> distinct (inactiveEdges g)
     \<and> (\<forall>i \<in> set (inactiveEdges g). i < length (g_e g))"

lemma indexOf_Some: "indexOf es x = Some k \<Longrightarrow> k < length es \<and> es ! k = x"
  by (induction es arbitrary: k) (auto split: if_splits)

lemma indexOf_None_iff: "indexOf es x = None \<longleftrightarrow> x \<notin> set es"
  by (induction es) auto

lemma replaceEdge_Some:
  assumes "old \<in> set es"
  shows "\<exists>es'. replaceEdge old new es = Some es' \<and> mset es' = add_mset new (mset es - {#old#})"
proof -
  from assms obtain k where k: "indexOf es old = Some k"
    using indexOf_None_iff [of es old] by (cases "indexOf es old") auto
  with indexOf_Some [OF k] show ?thesis
    by (auto simp: replaceEdge_def mset_update)
qed

lemma replaceEdgeAt_Some:
  assumes "i < length vs" and "old \<in> set (v_edges (vs ! i))"
  shows "\<exists>vs'. replaceEdgeAt i old new vs = Some vs' \<and> length vs' = length vs
           \<and> map v_pt vs' = map v_pt vs
           \<and> mset (v_edges (vs' ! i)) = add_mset new (mset (v_edges (vs ! i)) - {#old#})
           \<and> (\<forall>a. a \<noteq> i \<longrightarrow> vs' ! a = vs ! a)"
proof -
  from replaceEdge_Some [OF assms(2), of new] obtain es' where
    es': "replaceEdge old new (v_edges (vs ! i)) = Some es'"
      "mset es' = add_mset new (mset (v_edges (vs ! i)) - {#old#})"
    by blast
  have "map v_pt (vs[i := (vs ! i)\<lparr>v_edges := es'\<rparr>]) = map v_pt vs"
    using assms(1) by (simp add: map_update list_update_same_conv)
  with es' assms(1) show ?thesis
    by (simp add: replaceEdgeAt_def)
qed

lemma point2edge_loop_Some:
  "point2edge_loop G inact es k pt eps = Some (i, lva)
     \<Longrightarrow> k \<le> i \<and> i < k + length es \<and> i \<notin> set inact"
proof (induction es arbitrary: k)
  case Nil
  then show ?case by simp
next
  case (Cons e es)
  show ?case
  proof (cases "point2edge_loop G inact (e # es) k pt eps = point2edge_loop G inact es (Suc k) pt eps")
    case True
    with Cons.prems have "point2edge_loop G inact es (Suc k) pt eps = Some (i, lva)" by simp
    from Cons.IH [OF this] show ?thesis by simp
  next
    case False
    then have "k \<notin> set inact" "point2edge_loop G inact (e # es) k pt eps
        = Some (k, snd (closestSegment G (e_coords e) pt eps))"
      by (auto split: if_splits)
    with Cons.prems show ?thesis by simp
  qed
qed

lemma point2edge_Some:
  "point2edge G g pt eps = Some (i, lva) \<Longrightarrow> i < length (g_e g) \<and> i \<notin> set (inactiveEdges g)"
  using point2edge_loop_Some [of G "inactiveEdges g" "g_e g" 0 pt eps i lva]
  by (simp add: point2edge_def)


lemma wfGraph_endpoints:
  "wfGraph g \<Longrightarrow> i < length (g_e g)
     \<Longrightarrow> e_v1 (g_e g ! i) < length (g_v g) \<and> e_v2 (g_e g ! i) < length (g_v g)"
  by (simp add: wfGraph_def)

lemma wfGraph_count:
  "wfGraph g \<Longrightarrow> a < length (g_v g)
     \<Longrightarrow> count (mset (v_edges (g_v g ! a))) j
           = (if j < length (g_e g) \<and> j \<notin> set (inactiveEdges g) then incidence (g_e g ! j) a else 0)"
  by (simp add: wfGraph_def)

lemma joinVertexToGraph_splice:
  fixes g :: "'p QgsTracerGraph"
  assumes wf: "wfGraph g" and pe: "point2edge G g pt defaultEpsilon = Some (i, lva)"
  defines "n \<equiv> length (g_v g)" and "m \<equiv> length (g_e g)"
    and "a1 \<equiv> e_v1 (g_e g ! i)" and "a2 \<equiv> e_v2 (g_e g ! i)"
  shows "\<exists>vs2 c1 c2. joinVertexToGraph G g pt
           = Some (\<lparr>g_v = vs2 @ [\<lparr>v_pt = pt, v_edges = [m, m + 1]\<rparr>],
                    g_e = g_e g @ [\<lparr>e_v1 = a1, e_v2 = n, e_coords = c1\<rparr>,
                                   \<lparr>e_v1 = n, e_v2 = a2, e_coords = c2\<rparr>],
                    inactiveEdges = inactiveEdges g @ [i],
                    joinedVertices = joinedVertices g + 1\<rparr>, Some n)
         \<and> length vs2 = n \<and> map v_pt vs2 = map v_pt (g_v g)
         \<and> (\<forall>a < n. mset (v_edges (vs2 ! a))
                = (mset (v_edges (g_v g ! a)) - replicate_mset (incidence (g_e g ! i) a) i)
                  + (if a = a1 then {#m#} else {#}) + (if a = a2 then {#m + 1#} else {#}))
         \<and> (\<forall>a < n. a \<noteq> a1 \<longrightarrow> a \<noteq> a2 \<longrightarrow> vs2 ! a = g_v g ! a)"
proof -
  from point2edge_Some [OF pe] have i: "i < m" "i \<notin> set (inactiveEdges g)"
    by (simp_all add: m_def)
  from wfGraph_endpoints [OF wf] i have a: "a1 < n" "a2 < n"
    by (simp_all add: a1_def a2_def n_def m_def)
  have cnt: "count (mset (v_edges (g_v g ! b))) i = incidence (g_e g ! i) b" if "b < n" for b
    using wfGraph_count [OF wf, of b i] that i by (simp add: n_def m_def)
  have "count (mset (v_edges (g_v g ! a1))) i > 0"
    using cnt [OF a(1)] by (simp add: incidence_def a1_def)
  then have in1: "i \<in> set (v_edges (g_v g ! a1))"
    by (simp add: count_greater_zero_iff del: count_mset)
  from replaceEdgeAt_Some [OF _ in1, of m] a obtain vs1 where
    vs1: "replaceEdgeAt a1 i m (g_v g) = Some vs1" "length vs1 = n" "map v_pt vs1 = map v_pt (g_v g)"
      "mset (v_edges (vs1 ! a1)) = add_mset m (mset (v_edges (g_v g ! a1)) - {#i#})"
      "\<forall>b. b \<noteq> a1 \<longrightarrow> vs1 ! b = g_v g ! b"
    unfolding n_def by blast
  have "count (mset (v_edges (vs1 ! a2))) i > 0"
  proof (cases "a2 = a1")
    case True
    then have "incidence (g_e g ! i) a1 = 2"
      by (simp add: incidence_def a1_def a2_def)
    with cnt [OF a(1)] i show ?thesis
      by (simp add: True vs1(4) del: count_mset)
  next
    case False
    then have "incidence (g_e g ! i) a2 = 1"
      by (simp add: incidence_def a1_def a2_def)
    with cnt [OF a(2)] vs1(5) False show ?thesis
      by simp
  qed
  then have in2: "i \<in> set (v_edges (vs1 ! a2))"
    by (simp add: count_greater_zero_iff del: count_mset)
  from replaceEdgeAt_Some [OF _ in2, of "m + 1"] a vs1(2) obtain vs2 where
    vs2: "replaceEdgeAt a2 i (m + 1) vs1 = Some vs2" "length vs2 = n" "map v_pt vs2 = map v_pt vs1"
      "mset (v_edges (vs2 ! a2)) = add_mset (m + 1) (mset (v_edges (vs1 ! a2)) - {#i#})"
      "\<forall>b. b \<noteq> a2 \<longrightarrow> vs2 ! b = vs1 ! b"
    by auto
  have ms: "mset (v_edges (vs2 ! b))
        = (mset (v_edges (g_v g ! b)) - replicate_mset (incidence (g_e g ! i) b) i)
          + (if b = a1 then {#m#} else {#}) + (if b = a2 then {#m + 1#} else {#})"
    if b: "b < n" for b
  proof -
    have im: "i \<noteq> m" using i by simp
    consider "b = a1" "b = a2" | "b = a1" "b \<noteq> a2" | "b \<noteq> a1" "b = a2" | "b \<noteq> a1" "b \<noteq> a2"
      by blast
    then show ?thesis
    proof cases
      case 1
      then have "incidence (g_e g ! i) b = 2"
        by (simp add: incidence_def a1_def a2_def)
      moreover have "a2 = a1" using 1 by simp
      ultimately show ?thesis
        using 1 vs2(4) vs1(4) im in1
        by (simp add: numeral_2_eq_2 multiset_eq_iff)
    next
      case 2
      then have "incidence (g_e g ! i) b = 1"
        by (auto simp: incidence_def a1_def a2_def)
      then show ?thesis
        using 2 vs2(5) vs1(4) by simp
    next
      case 3
      then have "incidence (g_e g ! i) b = 1"
        by (auto simp: incidence_def a1_def a2_def)
      then show ?thesis
        using 3 vs2(4) vs1(5) by simp
    next
      case 4
      then have "incidence (g_e g ! i) b = 0"
        by (auto simp: incidence_def a1_def a2_def)
      then show ?thesis
        using 4 vs2(5) vs1(5) by simp
    qed
  qed
  have same: "vs2 ! b = g_v g ! b" if "b \<noteq> a1" "b \<noteq> a2" for b
    using that vs2(5) vs1(5) by simp
  have "joinVertexToGraph G g pt
           = Some (\<lparr>g_v = vs2 @ [\<lparr>v_pt = pt, v_edges = [m, m + 1]\<rparr>],
                    g_e = g_e g @ [\<lparr>e_v1 = a1, e_v2 = n, e_coords = fst (splitAt G (e_coords (g_e g ! i)) pt lva)\<rparr>,
                                   \<lparr>e_v1 = n, e_v2 = a2, e_coords = snd (splitAt G (e_coords (g_e g ! i)) pt lva)\<rparr>],
                    inactiveEdges = inactiveEdges g @ [i],
                    joinedVertices = joinedVertices g + 1\<rparr>, Some n)"
    using pe vs1(1) vs2(1) i
    by (simp add: joinVertexToGraph_def Let_def setInsert_def n_def m_def a1_def a2_def)
  with vs2(2) vs2(3) vs1(3) ms same show ?thesis
    by auto
qed


text \<open>A graph with temporary splices on top of \<open>n0\<close> vertices and \<open>m0\<close> edges: each
  joined vertex has added one vertex and two edges at the end, the first \<open>m0\<close> edges join
  vertices among the first \<open>n0\<close>, and such a vertex lists an added edge only if one of
  its own edges among the first \<open>m0\<close> is inactive.\<close>

definition splicedOn :: "nat \<Rightarrow> nat \<Rightarrow> 'p QgsTracerGraph \<Rightarrow> bool" where
  "splicedOn n0 m0 g \<longleftrightarrow>
     wfGraph g
     \<and> length (g_v g) = n0 + joinedVertices g
     \<and> length (g_e g) = m0 + 2 * joinedVertices g
     \<and> (\<forall>j < m0. e_v1 (g_e g ! j) < n0 \<and> e_v2 (g_e g ! j) < n0)
     \<and> (\<forall>a < n0. (\<forall>b \<in> set (inactiveEdges g). b < m0 \<longrightarrow> incidence (g_e g ! b) a = 0)
            \<longrightarrow> (\<forall>x \<in> set (v_edges (g_v g ! a)). x < m0))"

lemma joinVertexToGraph_splicedOn:
  fixes g :: "'p QgsTracerGraph"
  assumes sp: "splicedOn n0 m0 g" and pe: "point2edge G g pt defaultEpsilon = Some (i, lva)"
  shows "\<exists>g'. joinVertexToGraph G g pt = Some (g', Some (length (g_v g)))
           \<and> splicedOn n0 m0 g'
           \<and> take m0 (g_e g') = take m0 (g_e g)
           \<and> take n0 (map v_pt (g_v g')) = take n0 (map v_pt (g_v g))
           \<and> joinedVertices g' = joinedVertices g + 1
           \<and> inactiveEdges g' = inactiveEdges g @ [i]"
proof -
  define n m a1 a2 where "n = length (g_v g)" and "m = length (g_e g)"
    and "a1 = e_v1 (g_e g ! i)" and "a2 = e_v2 (g_e g ! i)"
  from sp have wf: "wfGraph g" and ln: "n = n0 + joinedVertices g" and lm: "m = m0 + 2 * joinedVertices g"
    and orig: "\<And>j. j < m0 \<Longrightarrow> e_v1 (g_e g ! j) < n0 \<and> e_v2 (g_e g ! j) < n0"
    and w5: "\<And>a x. a < n0 \<Longrightarrow> \<forall>b \<in> set (inactiveEdges g). b < m0 \<longrightarrow> incidence (g_e g ! b) a = 0
               \<Longrightarrow> x \<in> set (v_edges (g_v g ! a)) \<Longrightarrow> x < m0"
    by (auto simp: splicedOn_def n_def m_def)
  from point2edge_Some [OF pe] have i: "i < m" "i \<notin> set (inactiveEdges g)"
    by (simp_all add: m_def)
  from wfGraph_endpoints [OF wf] i have a: "a1 < n" "a2 < n"
    by (simp_all add: a1_def a2_def n_def m_def)
  from joinVertexToGraph_splice [OF wf pe] obtain vs2 c1 c2 where
    j: "joinVertexToGraph G g pt
           = Some (\<lparr>g_v = vs2 @ [\<lparr>v_pt = pt, v_edges = [m, m + 1]\<rparr>],
                    g_e = g_e g @ [\<lparr>e_v1 = a1, e_v2 = n, e_coords = c1\<rparr>,
                                   \<lparr>e_v1 = n, e_v2 = a2, e_coords = c2\<rparr>],
                    inactiveEdges = inactiveEdges g @ [i],
                    joinedVertices = joinedVertices g + 1\<rparr>, Some n)"
    and l2: "length vs2 = n" and pts: "map v_pt vs2 = map v_pt (g_v g)"
    and ms: "\<And>b. b < n \<Longrightarrow> mset (v_edges (vs2 ! b))
                = (mset (v_edges (g_v g ! b)) - replicate_mset (incidence (g_e g ! i) b) i)
                  + (if b = a1 then {#m#} else {#}) + (if b = a2 then {#m + 1#} else {#})"
    unfolding n_def m_def a1_def a2_def by blast
  define g' where "g' = \<lparr>g_v = vs2 @ [\<lparr>v_pt = pt, v_edges = [m, m + 1]\<rparr>],
                    g_e = g_e g @ [\<lparr>e_v1 = a1, e_v2 = n, e_coords = c1\<rparr>,
                                   \<lparr>e_v1 = n, e_v2 = a2, e_coords = c2\<rparr>],
                    inactiveEdges = inactiveEdges g @ [i],
                    joinedVertices = joinedVertices g + 1\<rparr>"
  have sel: "g_v g' = vs2 @ [\<lparr>v_pt = pt, v_edges = [m, m + 1]\<rparr>]"
    "g_e g' = g_e g @ [\<lparr>e_v1 = a1, e_v2 = n, e_coords = c1\<rparr>, \<lparr>e_v1 = n, e_v2 = a2, e_coords = c2\<rparr>]"
    "inactiveEdges g' = inactiveEdges g @ [i]" "joinedVertices g' = joinedVertices g + 1"
    by (simp_all add: g'_def)
  have old_e: "g_e g' ! k = g_e g ! k" if "k < m" for k
    using that by (simp add: sel nth_append m_def)
  have inc_n: "incidence (g_e g ! k) n = 0" if "k < m" for k
    using wfGraph_endpoints [OF wf, of k] that by (simp add: incidence_def n_def m_def)
  have cntg: "count (mset (v_edges (g_v g ! b))) k
           = (if k < m \<and> k \<notin> set (inactiveEdges g) then incidence (g_e g ! k) b else 0)"
    if "b < n" for b k
    using wfGraph_count [OF wf, of b k] that by (simp add: n_def m_def)
  have inb: "b < m" if "b \<in> set (inactiveEdges g)" for b
    using wf that by (simp add: wfGraph_def m_def)
  have w1: "\<forall>e \<in> set (g_e g'). e_v1 e < length (g_v g') \<and> e_v2 e < length (g_v g')"
    using wf a by (auto simp: sel l2 wfGraph_def n_def)
  have w2: "count (mset (v_edges (g_v g' ! b))) k
             = (if k < length (g_e g') \<and> k \<notin> set (inactiveEdges g') then incidence (g_e g' ! k) b else 0)"
    if b: "b < length (g_v g')" for b k
  proof (cases "b = n")
    case True
    have "g_v g' ! b = \<lparr>v_pt = pt, v_edges = [m, m + 1]\<rparr>"
      by (simp add: True sel nth_append l2)
    moreover have "g_e g' ! m = \<lparr>e_v1 = a1, e_v2 = n, e_coords = c1\<rparr>"
      "g_e g' ! Suc m = \<lparr>e_v1 = n, e_v2 = a2, e_coords = c2\<rparr>"
      by (simp_all add: sel nth_append m_def)
    moreover have "k < m \<or> k = m \<or> k = Suc m \<or> Suc m < k" by arith
    ultimately show ?thesis
      using a i inc_n [of k] old_e [of k] inb [of m] inb [of "Suc m"]
      by (auto simp: True sel incidence_def m_def [symmetric])
  next
    case False
    with b have bn: "b < n" by (simp add: sel l2)
    then have nb: "g_v g' ! b = vs2 ! b"
      by (simp add: sel nth_append l2)
    have e1: "g_e g' ! m = \<lparr>e_v1 = a1, e_v2 = n, e_coords = c1\<rparr>"
      and e2: "g_e g' ! Suc m = \<lparr>e_v1 = n, e_v2 = a2, e_coords = c2\<rparr>"
      by (simp_all add: sel nth_append m_def)
    have cv: "count (mset (v_edges (vs2 ! b))) k
        = (count (mset (v_edges (g_v g ! b))) k - (if k = i then incidence (g_e g ! i) b else 0))
          + (if b = a1 \<and> k = m then 1 else 0) + (if b = a2 \<and> k = Suc m then 1 else 0)"
      by (simp add: ms [OF bn] del: count_mset)
    have rhs: "(if k < length (g_e g') \<and> k \<notin> set (inactiveEdges g') then incidence (g_e g' ! k) b else 0)
        = (if k = i then 0
           else if k < m then (if k \<notin> set (inactiveEdges g) then incidence (g_e g ! k) b else 0)
           else if k = m then (if b = a1 then 1 else 0)
           else if k = Suc m then (if b = a2 then 1 else 0) else 0)"
      using i bn e1 e2 old_e [of k] inb [of m] inb [of "Suc m"]
      by (auto simp: sel m_def [symmetric] incidence_def)
    show ?thesis
      unfolding nb cv rhs cntg [OF bn] using i by auto
  qed
  have wf': "wfGraph g'"
    unfolding wfGraph_def using w1 w2 wf i
    by (auto simp: sel wfGraph_def m_def)
  have m0m: "m0 \<le> m" and n0n: "n0 \<le> n" using ln lm by simp_all
  have orig': "\<forall>k < m0. e_v1 (g_e g' ! k) < n0 \<and> e_v2 (g_e g' ! k) < n0"
    using orig old_e m0m by simp
  have w5': "x < m0" if an: "a < n0"
    and prem: "\<forall>b \<in> set (inactiveEdges g'). b < m0 \<longrightarrow> incidence (g_e g' ! b) a = 0"
    and x: "x \<in> set (v_edges (g_v g' ! a))" for a x
  proof -
    from an n0n have bn: "a < n" by simp
    have prem_g: "\<forall>b \<in> set (inactiveEdges g). b < m0 \<longrightarrow> incidence (g_e g ! b) a = 0"
      using prem old_e m0m by (auto simp: sel)
    have notend: "incidence (g_e g ! i) a = 0"
    proof (cases "i < m0")
      case True
      with prem old_e [of i] i show ?thesis by (simp add: sel)
    next
      case False
      show ?thesis
      proof (rule ccontr)
        assume "incidence (g_e g ! i) a \<noteq> 0"
        with cntg [OF bn, of i] i have "count (mset (v_edges (g_v g ! a))) i > 0" by simp
        then have "i \<in> set (v_edges (g_v g ! a))"
          by (simp add: count_greater_zero_iff del: count_mset)
        from w5 [OF an prem_g this] False show False by simp
      qed
    qed
    then have "a \<noteq> a1" "a \<noteq> a2"
      by (auto simp: incidence_def a1_def a2_def split: if_splits)
    with ms [OF bn] notend have "mset (v_edges (vs2 ! a)) = mset (v_edges (g_v g ! a))"
      by simp
    then have "set (v_edges (vs2 ! a)) = set (v_edges (g_v g ! a))"
      by (rule mset_eq_setD)
    with x bn have "x \<in> set (v_edges (g_v g ! a))"
      by (simp add: sel nth_append l2)
    from w5 [OF an prem_g this] show ?thesis .
  qed
  have "splicedOn n0 m0 g'"
    unfolding splicedOn_def
  proof (intro conjI allI impI ballI)
    show "wfGraph g'" by (rule wf')
    show "length (g_v g') = n0 + joinedVertices g'"
      using ln by (simp add: sel l2)
    show "length (g_e g') = m0 + 2 * joinedVertices g'"
      using lm by (simp add: sel m_def [symmetric])
  next
    fix k assume "k < m0"
    with orig' show "e_v1 (g_e g' ! k) < n0" "e_v2 (g_e g' ! k) < n0" by simp_all
  next
    fix a x
    assume "a < n0" "\<forall>b \<in> set (inactiveEdges g'). b < m0 \<longrightarrow> incidence (g_e g' ! b) a = 0"
      "x \<in> set (v_edges (g_v g' ! a))"
    then show "x < m0" by (rule w5')
  qed
  moreover have "take m0 (g_e g') = take m0 (g_e g)"
    using m0m by (simp add: sel m_def)
  moreover have "take n0 (map v_pt (g_v g')) = take n0 (map v_pt (g_v g))"
    using n0n pts by (simp add: sel l2 n_def)
  moreover have "joinVertexToGraph G g pt = Some (g', Some (length (g_v g)))"
    using j by (simp add: g'_def n_def)
  ultimately show ?thesis
    by (simp add: sel)
qed


text \<open>What the loop of \<^verbatim>\<open>resetGraph\<close> appends to the edge list of vertex \<open>a\<close>.\<close>

definition restores :: "'p E list \<Rightarrow> nat \<Rightarrow> nat list \<Rightarrow> nat list" where
  "restores es a bs =
     concat (map (\<lambda>b. if b < length es then replicate (incidence (es ! b) a) b else []) bs)"

lemma restores_simps [simp]:
  "restores es a [] = []"
  "restores es a (b # bs)
     = (if b < length es then replicate (incidence (es ! b) a) b else []) @ restores es a bs"
  by (simp_all add: restores_def)

lemma restores_bound: "x \<in> set (restores es a bs) \<Longrightarrow> x < length es"
  by (auto simp: restores_def split: if_splits)

lemma count_restores:
  "distinct bs \<Longrightarrow> count (mset (restores es a bs)) j
     = (if j \<in> set bs \<and> j < length es then incidence (es ! j) a else 0)"
  by (induction bs) (auto simp del: count_mset)

lemma map_v_pt_update [simp]:
  "map v_pt (vs[i := (vs ! i)\<lparr>v_edges := es\<rparr>]) = map v_pt vs"
proof (cases "i < length vs")
  case True
  then show ?thesis
    by (simp add: map_update list_update_same_conv)
next
  case False
  then have "vs[i := (vs ! i)\<lparr>v_edges := es\<rparr>] = vs"
    by (intro list_update_beyond) simp
  then show ?thesis by (simp only:)
qed

lemma restore_pair:
  assumes "e_v1 e < length vs" and "e_v2 e < length vs" and "b < m"
  shows "\<exists>vs1 vs2. restoreEdgeAt (e_v1 e) m b vs = Some vs1 \<and> restoreEdgeAt (e_v2 e) m b vs1 = Some vs2
           \<and> length vs2 = length vs \<and> map v_pt vs2 = map v_pt vs
           \<and> (\<forall>a < length vs. v_edges (vs2 ! a)
                 = (if incidence e a = 0 then v_edges (vs ! a)
                    else filter (\<lambda>x. x < m) (v_edges (vs ! a)) @ replicate (incidence e a) b))"
proof -
  define vs1 where "vs1 = vs[e_v1 e := (vs ! e_v1 e)\<lparr>v_edges := filter (\<lambda>x. x < m) (v_edges (vs ! e_v1 e)) @ [b]\<rparr>]"
  define vs2 where "vs2 = vs1[e_v2 e := (vs1 ! e_v2 e)\<lparr>v_edges := filter (\<lambda>x. x < m) (v_edges (vs1 ! e_v2 e)) @ [b]\<rparr>]"
  have r1: "restoreEdgeAt (e_v1 e) m b vs = Some vs1"
    using assms(1) by (simp add: restoreEdgeAt_def vs1_def)
  have r2: "restoreEdgeAt (e_v2 e) m b vs1 = Some vs2"
    using assms(2) by (simp add: restoreEdgeAt_def vs1_def vs2_def)
  have l: "length vs2 = length vs"
    by (simp add: vs1_def vs2_def)
  have p: "map v_pt vs2 = map v_pt vs"
    by (simp add: vs1_def vs2_def)
  have ed: "v_edges (vs2 ! a)
                 = (if incidence e a = 0 then v_edges (vs ! a)
                    else filter (\<lambda>x. x < m) (v_edges (vs ! a)) @ replicate (incidence e a) b)"
    if "a < length vs" for a
    using that assms by (auto simp: vs1_def vs2_def incidence_def nth_list_update)
  from r1 r2 l p ed show ?thesis by blast
qed

lemma resetGraph_loop_effect:
  assumes "\<forall>b \<in> set bs. b < length es \<longrightarrow> e_v1 (es ! b) < length vs \<and> e_v2 (es ! b) < length vs"
  shows "\<exists>vs'. resetGraph_loop es bs vs = Some vs' \<and> length vs' = length vs
           \<and> map v_pt vs' = map v_pt vs
           \<and> (\<forall>a < length vs. v_edges (vs' ! a)
                 = (if restores es a bs = [] then v_edges (vs ! a)
                    else filter (\<lambda>x. x < length es) (v_edges (vs ! a)) @ restores es a bs))"
  using assms
proof (induction bs arbitrary: vs)
  case Nil
  then show ?case by simp
next
  case (Cons b bs)
  show ?case
  proof (cases "b < length es")
    case False
    from Cons.IH [of vs] Cons.prems obtain vs' where
      v: "resetGraph_loop es bs vs = Some vs'" "length vs' = length vs" "map v_pt vs' = map v_pt vs"
        "\<forall>a < length vs. v_edges (vs' ! a)
                 = (if restores es a bs = [] then v_edges (vs ! a)
                    else filter (\<lambda>x. x < length es) (v_edges (vs ! a)) @ restores es a bs)"
      by auto
    show ?thesis
      using False v by (intro exI [of _ vs']) simp
  next
    case True
    with Cons.prems have ep: "e_v1 (es ! b) < length vs" "e_v2 (es ! b) < length vs"
      by simp_all
    from restore_pair [OF ep True] obtain vs1 vs2 where
      r: "restoreEdgeAt (e_v1 (es ! b)) (length es) b vs = Some vs1"
         "restoreEdgeAt (e_v2 (es ! b)) (length es) b vs1 = Some vs2"
      and l: "length vs2 = length vs" and p: "map v_pt vs2 = map v_pt vs"
      and ed: "\<And>a. a < length vs \<Longrightarrow> v_edges (vs2 ! a)
                 = (if incidence (es ! b) a = 0 then v_edges (vs ! a)
                    else filter (\<lambda>x. x < length es) (v_edges (vs ! a)) @ replicate (incidence (es ! b) a) b)"
      by blast
    from Cons.prems l
    have "\<forall>b \<in> set bs. b < length es \<longrightarrow> e_v1 (es ! b) < length vs2 \<and> e_v2 (es ! b) < length vs2"
      by simp
    from Cons.IH [OF this] obtain vs' where
      lp: "resetGraph_loop es bs vs2 = Some vs'" and l': "length vs' = length vs2"
      and p': "map v_pt vs' = map v_pt vs2"
      and ed': "\<And>a. a < length vs2 \<Longrightarrow> v_edges (vs' ! a)
                 = (if restores es a bs = [] then v_edges (vs2 ! a)
                    else filter (\<lambda>x. x < length es) (v_edges (vs2 ! a)) @ restores es a bs)"
      by blast
    have "resetGraph_loop es (b # bs) vs = Some vs'"
      using True r lp by simp
    moreover have "v_edges (vs' ! a)
                 = (if restores es a (b # bs) = [] then v_edges (vs ! a)
                    else filter (\<lambda>x. x < length es) (v_edges (vs ! a)) @ restores es a (b # bs))"
      if a: "a < length vs" for a
      using ed' [of a] ed [OF a] a l True by auto
    ultimately show ?thesis
      using l l' p p' by auto
  qed
qed


lemma resetGraph_splicedOn:
  fixes g :: "'p QgsTracerGraph"
  assumes sp: "splicedOn n0 m0 g"
  shows "\<exists>g'. resetGraph rank g = Some g' \<and> wfGraph g' \<and> inactiveEdges g' = [] \<and> joinedVertices g' = 0
           \<and> g_e g' = take m0 (g_e g) \<and> length (g_v g') = n0
           \<and> map v_pt (g_v g') = take n0 (map v_pt (g_v g))"
proof -
  define es vs bs where "es = take m0 (g_e g)" and "vs = take n0 (g_v g)"
    and "bs = sort_key rank (inactiveEdges g)"
  have sbs: "set bs = set (inactiveEdges g)" by (simp add: bs_def)
  from sp have wf: "wfGraph g" and ln: "length (g_v g) = n0 + joinedVertices g"
    and lm: "length (g_e g) = m0 + 2 * joinedVertices g"
    and orig: "\<And>j. j < m0 \<Longrightarrow> e_v1 (g_e g ! j) < n0 \<and> e_v2 (g_e g ! j) < n0"
    and w5: "\<And>a x. a < n0 \<Longrightarrow> \<forall>b \<in> set bs. b < m0 \<longrightarrow> incidence (g_e g ! b) a = 0
               \<Longrightarrow> x \<in> set (v_edges (g_v g ! a)) \<Longrightarrow> x < m0"
    unfolding splicedOn_def sbs by blast+
  have les: "length es = m0" and lvs: "length vs = n0"
    using ln lm by (simp_all add: es_def vs_def)
  have es_nth: "es ! j = g_e g ! j" if "j < m0" for j
    using that by (simp add: es_def)
  have vs_nth: "vs ! a = g_v g ! a" if "a < n0" for a
    using that by (simp add: vs_def)
  have dist: "distinct bs" using wf by (simp add: wfGraph_def bs_def)
  have "\<forall>b \<in> set bs. b < length es \<longrightarrow> e_v1 (es ! b) < length vs \<and> e_v2 (es ! b) < length vs"
    using orig es_nth by (simp add: les lvs)
  from resetGraph_loop_effect [OF this] obtain vs' where
    lp: "resetGraph_loop es bs vs = Some vs'" and l': "length vs' = n0"
    and p': "map v_pt vs' = map v_pt vs"
    and ed: "\<And>a. a < n0 \<Longrightarrow> v_edges (vs' ! a)
                 = (if restores es a bs = [] then v_edges (vs ! a)
                    else filter (\<lambda>x. x < m0) (v_edges (vs ! a)) @ restores es a bs)"
    unfolding les lvs by blast
  define g' where "g' = \<lparr>g_v = vs', g_e = es, inactiveEdges = [], joinedVertices = 0\<rparr>"
  have rg: "resetGraph rank g = Some g'"
    using ln lm lp by (simp add: resetGraph_def Let_def es_def vs_def bs_def g'_def)
  have cnt: "count (mset (v_edges (vs' ! a))) j = (if j < m0 then incidence (es ! j) a else 0)"
    if a: "a < n0" for a j
  proof -
    let ?L = "v_edges (g_v g ! a)"
    have an: "a < length (g_v g)" using a ln by simp
    have cL: "count (mset ?L) j
        = (if j < length (g_e g) \<and> j \<notin> set bs then incidence (g_e g ! j) a else 0)"
      using wfGraph_count [OF wf an, of j] by (simp add: sbs)
    have cR: "count (mset (restores es a bs)) j
        = (if j \<in> set bs \<and> j < m0 then incidence (es ! j) a else 0)"
      using count_restores [OF dist, of es a j] by (simp add: les)
    have full: "v_edges (vs' ! a) = filter (\<lambda>x. x < m0) ?L @ restores es a bs"
    proof (cases "restores es a bs = []")
      case False
      then show ?thesis using ed [OF a] vs_nth [OF a] by simp
    next
      case True
      have "incidence (g_e g ! b) a = 0" if b: "b \<in> set bs" "b < m0" for b
      proof -
        have "count (mset (restores es a bs)) b = 0" by (simp add: True del: count_mset)
        with count_restores [OF dist, of es a b] b es_nth [of b] show ?thesis
          by (simp add: les del: count_mset)
      qed
      then have "\<forall>x \<in> set ?L. x < m0"
        using w5 [OF a] by blast
      then have "filter (\<lambda>x. x < m0) ?L = ?L" by simp
      with True ed [OF a] vs_nth [OF a] show ?thesis by simp
    qed
    have "m0 \<le> length (g_e g)" using lm by simp
    then show ?thesis
      unfolding full using cL cR es_nth [of j]
      by (auto simp del: count_mset simp: count_mset_0_iff)
  qed
  have w1: "e_v1 e < n0 \<and> e_v2 e < n0" if "e \<in> set es" for e
  proof -
    from that obtain j where "j < m0" "e = es ! j"
      by (auto simp: in_set_conv_nth les)
    with orig [of j] es_nth [of j] show ?thesis by simp
  qed
  have "wfGraph g'"
    unfolding wfGraph_def using w1 cnt by (simp add: g'_def l' les)
  moreover have "map v_pt (g_v g') = take n0 (map v_pt (g_v g))"
    by (simp add: g'_def p' vs_def take_map)
  ultimately show ?thesis
    using rg by (simp add: g'_def es_def l')
qed

lemma wfGraph_same_edges:
  assumes "wfGraph g" and "wfGraph g'" and "inactiveEdges g = []" and "inactiveEdges g' = []"
    and "g_e g' = g_e g" and "length (g_v g') = length (g_v g)" and "a < length (g_v g)"
  shows "mset (v_edges (g_v g' ! a)) = mset (v_edges (g_v g ! a))"
proof (rule multiset_eqI)
  fix j
  show "count (mset (v_edges (g_v g' ! a))) j = count (mset (v_edges (g_v g ! a))) j"
    using wfGraph_count [OF assms(1) assms(7), of j] wfGraph_count [OF assms(2), of a j] assms(3-7)
    by (simp del: count_mset)
qed

section \<open>The search when the target cannot be reached\<close>

text \<open>\<open>reach g a x\<close>: there is a path from vertex \<open>a\<close> to vertex \<open>x\<close> along edges that the
  edge lists of the vertices name, which is how \<^verbatim>\<open>shortestPath\<close> moves through the graph.\<close>

inductive reach :: "'p QgsTracerGraph \<Rightarrow> nat \<Rightarrow> nat \<Rightarrow> bool" for g :: "'p QgsTracerGraph" and a :: nat where
  reach_refl: "reach g a a"
| reach_step: "reach g a x \<Longrightarrow> x < length (g_v g) \<Longrightarrow> ei \<in> set (v_edges (g_v g ! x))
     \<Longrightarrow> ei < length (g_e g) \<Longrightarrow> reach g a (otherVertex (g_e g ! ei) x)"

definition edgesInRange :: "'p QgsTracerGraph \<Rightarrow> bool" where
  "edgesInRange g \<longleftrightarrow>
     (\<forall>x < length (g_v g). \<forall>ei \<in> set (v_edges (g_v g ! x)).
        ei < length (g_e g) \<and> otherVertex (g_e g ! ei) x < length (g_v g))"

lemma wfGraph_edgesInRange: "wfGraph g \<Longrightarrow> edgesInRange g"
proof (unfold edgesInRange_def, intro allI impI ballI)
  fix x ei
  assume wf: "wfGraph g" and x: "x < length (g_v g)" and ei: "ei \<in> set (v_edges (g_v g ! x))"
  from ei have "count (mset (v_edges (g_v g ! x))) ei > 0"
    by (simp add: count_greater_zero_iff del: count_mset)
  with wfGraph_count [OF wf x, of ei] have l: "ei < length (g_e g)"
    by (simp split: if_splits del: count_mset)
  with wfGraph_endpoints [OF wf l]
  show "ei < length (g_e g) \<and> otherVertex (g_e g ! ei) x < length (g_v g)"
    by (simp add: otherVertex_def)
qed

lemma relaxEdges_ok:
  assumes "\<forall>ei \<in> set es. ei < length (g_e g) \<and> otherVertex (g_e g ! ei) u < n"
    and "length D = n" and "length S = n" and "length F = n" and "u < n"
  shows "\<exists>D' S' Q'. relaxEdges G g u F es (D, S, Q) = Some (D', S', Q')
           \<and> length D' = n \<and> length S' = n
           \<and> (\<forall>q \<in> set Q'. q \<in> set Q \<or> (\<exists>ei \<in> set es. fst q = otherVertex (g_e g ! ei) u))"
  using assms
proof (induction es arbitrary: D S Q)
  case Nil
  then show ?case by simp
next
  case (Cons ei es)
  let ?v = "otherVertex (g_e g ! ei) u"
  let ?d = "D ! u + weight G (g_e g ! ei)"
  from Cons.prems have r: "ei < length (g_e g)" "?v < n" by simp_all
  have rest: "\<forall>ei \<in> set es. ei < length (g_e g) \<and> otherVertex (g_e g ! ei) u < n"
    using Cons.prems(1) by simp
  show ?case
  proof (cases "\<not> F ! ?v \<and> ?d < D ! ?v")
    case True
    have "length (D[?v := ?d]) = n" "length (S[?v := Some ei]) = n"
      using Cons.prems by simp_all
    from Cons.IH [OF rest this Cons.prems(4,5), of "Q @ [(?v, ?d)]"] obtain D' S' Q' where
      h: "relaxEdges G g u F es (D[?v := ?d], S[?v := Some ei], Q @ [(?v, ?d)]) = Some (D', S', Q')"
        "length D' = n" "length S' = n"
        "\<forall>q \<in> set Q'. q \<in> set (Q @ [(?v, ?d)]) \<or> (\<exists>ei \<in> set es. fst q = otherVertex (g_e g ! ei) u)"
      by blast
    have "relaxEdges G g u F (ei # es) (D, S, Q) = Some (D', S', Q')"
      using True r Cons.prems(2-5) h(1) by simp
    moreover have "\<forall>q \<in> set Q'. q \<in> set Q \<or> (\<exists>ei \<in> set (ei # es). fst q = otherVertex (g_e g ! ei) u)"
      using h(4) by auto
    ultimately show ?thesis using h(2,3) by blast
  next
    case False
    from Cons.IH [OF rest Cons.prems(2-5), of Q] obtain D' S' Q' where
      h: "relaxEdges G g u F es (D, S, Q) = Some (D', S', Q')"
        "length D' = n" "length S' = n"
        "\<forall>q \<in> set Q'. q \<in> set Q \<or> (\<exists>ei \<in> set es. fst q = otherVertex (g_e g ! ei) u)"
      by blast
    have "relaxEdges G g u F (ei # es) (D, S, Q) = Some (D', S', Q')"
      using False r Cons.prems(2-5) h(1) by auto
    moreover have "\<forall>q \<in> set Q'. q \<in> set Q \<or> (\<exists>ei \<in> set (ei # es). fst q = otherVertex (g_e g ! ei) u)"
      using h(4) by auto
    ultimately show ?thesis using h(2,3) by blast
  qed
qed





text \<open>A well-formed graph without pending splices is spliced on itself.\<close>

lemma splicedOn_clean:
  assumes "wfGraph g" and "inactiveEdges g = []" and "joinedVertices g = 0"
  shows "splicedOn (length (g_v g)) (length (g_e g)) g"
  unfolding splicedOn_def
proof (intro conjI allI impI ballI)
  fix a x
  assume a: "a < length (g_v g)" and x: "x \<in> set (v_edges (g_v g ! a))"
  from x have "count (mset (v_edges (g_v g ! a))) x > 0"
    by (simp add: count_greater_zero_iff del: count_mset)
  with wfGraph_count [OF assms(1) a, of x] show "x < length (g_e g)"
    by (simp split: if_splits del: count_mset)
next
  fix j assume "j < length (g_e g)"
  from wfGraph_endpoints [OF assms(1) this]
  show "e_v1 (g_e g ! j) < length (g_v g)" "e_v2 (g_e g ! j) < length (g_v g)" by simp_all
qed (use assms in simp_all)

lemma pointInGraph_splicedOn:
  fixes g :: "'p QgsTracerGraph"
  assumes sp: "splicedOn n0 m0 g"
  shows "\<exists>g' r. pointInGraph G g pt = Some (g', r) \<and> splicedOn n0 m0 g'
           \<and> take m0 (g_e g') = take m0 (g_e g)
           \<and> take n0 (map v_pt (g_v g')) = take n0 (map v_pt (g_v g))
           \<and> (\<forall>v. r = Some v \<longrightarrow> v < length (g_v g'))
           \<and> (r = None \<longrightarrow> g' = g)
           \<and> joinedVertices g \<le> joinedVertices g'"
proof (cases "point2vertex G g pt defaultEpsilon")
  case (Some v)
  with point2vertex_bound [OF Some] sp show ?thesis
    by (simp add: pointInGraph_def)
next
  case None
  show ?thesis
  proof (cases "point2edge G g pt defaultEpsilon")
    case pn: None
    with None sp show ?thesis
      by (simp add: pointInGraph_def joinVertexToGraph_def)
  next
    case (Some r)
    obtain i lva where r: "r = (i, lva)" by (cases r) auto
    from joinVertexToGraph_splicedOn [OF sp Some [unfolded r]] obtain g' where
      j: "joinVertexToGraph G g pt = Some (g', Some (length (g_v g)))" "splicedOn n0 m0 g'"
        "take m0 (g_e g') = take m0 (g_e g)"
        "take n0 (map v_pt (g_v g')) = take n0 (map v_pt (g_v g))"
        "joinedVertices g' = joinedVertices g + 1"
      by blast
    from j(2) sp j(5) have "length (g_v g) < length (g_v g')"
      by (simp add: splicedOn_def)
    with None j show ?thesis
      by (simp add: pointInGraph_def)
  qed
qed

section \<open>makeGraph builds a well-formed graph\<close>

text \<open>The invariant of the loop of \<^verbatim>\<open>makeGraph\<close>: the graph is well-formed and has no splices,
  and the hash holds vertex indices.\<close>

definition buildInv :: "'p QgsTracerGraph \<times> ('p \<times> nat) list \<Rightarrow> bool" where
  "buildInv s \<longleftrightarrow> wfGraph (fst s) \<and> inactiveEdges (fst s) = [] \<and> joinedVertices (fst s) = 0
     \<and> (\<forall>kv \<in> set (snd s). snd kv < length (g_v (fst s)))"

lemma hashFind_Some: "hashFind G h p = Some i \<Longrightarrow> \<exists>k. (k, i) \<in> set h"
  by (auto simp: hashFind_def find_Some_iff in_set_conv_nth) (metis prod.collapse nth_mem)

lemma getOrAddVertex_inv:
  assumes "buildInv (g, h)" and "getOrAddVertex G p (g, h) = (a, g1, h1)"
  shows "buildInv (g1, h1) \<and> a < length (g_v g1) \<and> g_e g1 = g_e g \<and> length (g_v g) \<le> length (g_v g1)"
proof (cases "hashFind G h p")
  case (Some i)
  with assms hashFind_Some [OF Some] show ?thesis
    by (auto simp: getOrAddVertex_def buildInv_def)
next
  case None
  let ?n = "length (g_v g)"
  from assms(2) None have g1: "g1 = g\<lparr>g_v := g_v g @ [\<lparr>v_pt = p, v_edges = []\<rparr>]\<rparr>"
    and h1: "h1 = h @ [(p, ?n)]" and a: "a = ?n"
    by (auto simp: getOrAddVertex_def)
  from assms(1) have wf: "wfGraph g" and cl: "inactiveEdges g = []" "joinedVertices g = 0"
    and hb: "\<forall>kv \<in> set h. snd kv < ?n"
    by (simp_all add: buildInv_def)
  have "wfGraph g1"
    unfolding wfGraph_def
  proof (intro conjI allI impI ballI)
    fix e assume "e \<in> set (g_e g1)"
    with wf show "e_v1 e < length (g_v g1)" "e_v2 e < length (g_v g1)"
      by (auto simp: g1 wfGraph_def)
  next
    fix b j assume b: "b < length (g_v g1)"
    show "count (mset (v_edges (g_v g1 ! b))) j
        = (if j < length (g_e g1) \<and> j \<notin> set (inactiveEdges g1) then incidence (g_e g1 ! j) b else 0)"
    proof (cases "b < ?n")
      case True
      with wfGraph_count [OF wf True, of j] show ?thesis
        by (simp add: g1 nth_append)
    next
      case False
      with b have bn: "b = ?n" by (simp add: g1)
      have "incidence (g_e g ! j) ?n = 0" if "j < length (g_e g)"
        using wfGraph_endpoints [OF wf that] by (simp add: incidence_def)
      then show ?thesis
        by (simp add: g1 bn)
    qed
  qed (use wf in \<open>simp_all add: g1 wfGraph_def\<close>)
  with cl hb show ?thesis
    by (auto simp: buildInv_def g1 h1 a)
qed

lemma addEdge_wf:
  fixes g :: "'p QgsTracerGraph"
  assumes wf: "wfGraph g" and cl: "inactiveEdges g = []" and a: "a < length (g_v g)" and b: "b < length (g_v g)"
    and e: "e_v1 e = a" "e_v2 e = b"
  defines "g' \<equiv> linkEdge b (length (g_e g)) (linkEdge a (length (g_e g)) (g\<lparr>g_e := g_e g @ [e]\<rparr>))"
  shows "wfGraph g' \<and> inactiveEdges g' = [] \<and> joinedVertices g' = joinedVertices g
           \<and> length (g_v g') = length (g_v g)"
proof -
  let ?m = "length (g_e g)" and ?n = "length (g_v g)"
  have sel: "g_e g' = g_e g @ [e]" "inactiveEdges g' = []" "joinedVertices g' = joinedVertices g"
    "length (g_v g') = ?n"
    by (simp_all add: g'_def linkEdge_def cl)
  have ed: "v_edges (g_v g' ! x)
      = v_edges (g_v g ! x) @ (if x = a then [?m] else []) @ (if x = b then [?m] else [])"
    if "x < ?n" for x
    using that a b by (auto simp: g'_def linkEdge_def nth_list_update)
  have "wfGraph g'"
    unfolding wfGraph_def
  proof (intro conjI allI impI ballI)
    fix e' assume "e' \<in> set (g_e g')"
    with wf a b e show "e_v1 e' < length (g_v g')" "e_v2 e' < length (g_v g')"
      by (auto simp: sel wfGraph_def)
  next
    fix x j assume "x < length (g_v g')"
    then have x: "x < ?n" by (simp add: sel)
    have "j < ?m \<or> j = ?m \<or> ?m < j" by arith
    then show "count (mset (v_edges (g_v g' ! x))) j
        = (if j < length (g_e g') \<and> j \<notin> set (inactiveEdges g') then incidence (g_e g' ! j) x else 0)"
      using wfGraph_count [OF wf x, of j] e
      by (auto simp: ed [OF x] sel cl nth_append incidence_def)
  qed (simp_all add: sel)
  with sel show ?thesis by simp
qed

lemma makeGraph_step_inv:
  assumes "buildInv s"
  shows "buildInv (makeGraph_step G line s)"
proof -
  obtain g h where s: "s = (g, h)" by (cases s) auto
  obtain a g1 h1 where s1: "getOrAddVertex G (startPoint G line) (g, h) = (a, g1, h1)"
    by (cases "getOrAddVertex G (startPoint G line) (g, h)") auto
  obtain b g2 h2 where s2: "getOrAddVertex G (endPoint G line) (g1, h1) = (b, g2, h2)"
    by (cases "getOrAddVertex G (endPoint G line) (g1, h1)") auto
  from getOrAddVertex_inv [OF assms [unfolded s] s1]
  have i1: "buildInv (g1, h1)" "a < length (g_v g1)" by simp_all
  from getOrAddVertex_inv [OF i1(1) s2]
  have i2: "buildInv (g2, h2)" "b < length (g_v g2)" "length (g_v g1) \<le> length (g_v g2)" by simp_all
  from i2(1) have wf2: "wfGraph g2" "inactiveEdges g2 = []" "joinedVertices g2 = 0"
    and hb: "\<forall>kv \<in> set h2. snd kv < length (g_v g2)"
    by (simp_all add: buildInv_def)
  define e where "e = \<lparr>e_v1 = a, e_v2 = b, e_coords = map (\<lambda>i. line ! i) [0..<length line]\<rparr>"
  have a2: "a < length (g_v g2)" using i1(2) i2(3) by simp
  from addEdge_wf [OF wf2(1,2) a2 i2(2), of e] wf2(3) hb
  have "buildInv (linkEdge b (length (g_e g2)) (linkEdge a (length (g_e g2)) (g2\<lparr>g_e := g_e g2 @ [e]\<rparr>)), h2)"
    by (simp add: buildInv_def e_def)
  then show ?thesis
    by (simp add: makeGraph_step_def s s1 s2 Let_def e_def)
qed

lemma makeGraph_loop_inv: "buildInv s \<Longrightarrow> buildInv (makeGraph_loop G ls s)"
  by (induction ls arbitrary: s) (simp_all add: makeGraph_step_inv)

lemma makeGraph_wf:
  "wfGraph (makeGraph G ls) \<and> inactiveEdges (makeGraph G ls) = [] \<and> joinedVertices (makeGraph G ls) = 0"
proof -
  have "buildInv (emptyGraph, [])"
    by (simp add: buildInv_def wfGraph_def emptyGraph_def)
  from makeGraph_loop_inv [OF this, of G ls] show ?thesis
    by (simp add: buildInv_def makeGraph_def)
qed

text \<open>The graph that \<^verbatim>\<open>init\<close> caches in a session that had none is well-formed and has no
  pending splices.\<close>

lemma init_builds_wfGraph:
  assumes "mGraph t = None" and "mGraph (snd (init C t)) = Some g"
  shows "wfGraph g \<and> inactiveEdges g = [] \<and> joinedVertices g = 0"
proof -
  from assms obtain mpl where "g = makeGraph (geom C) mpl"
    by (auto simp: init_def initGraph_def Let_def split: option.splits)
  with makeGraph_wf [of "geom C" mpl] show ?thesis by simp
qed

section \<open>The order of the edges in a list\<close>

lemma replaceEdge_filter:
  assumes "replaceEdge old new es = Some es'" and "\<not> P new"
  shows "filter P es' = (if P old then remove1 old (filter P es) else filter P es)"
  using assms
proof (induction es arbitrary: es')
  case Nil
  then show ?case by (simp add: replaceEdge_def)
next
  case (Cons y ys)
  show ?case
  proof (cases "y = old")
    case True
    with Cons.prems show ?thesis by (auto simp: replaceEdge_def)
  next
    case False
    with Cons.prems obtain k where k: "indexOf ys old = Some k" and es': "es' = y # ys[k := new]"
      by (auto simp: replaceEdge_def)
    then have "replaceEdge old new ys = Some (ys[k := new])" by (simp add: replaceEdge_def)
    from Cons.IH [OF this Cons.prems(2)] False es' show ?thesis by auto
  qed
qed

lemma replaceEdgeAt_filter:
  assumes "replaceEdgeAt a old new vs = Some vs'" and "\<not> P new"
  shows "length vs' = length vs
       \<and> (\<forall>b < length vs. filter P (v_edges (vs' ! b))
             = (if b = a \<and> P old then remove1 old (filter P (v_edges (vs ! b)))
                else filter P (v_edges (vs ! b))))"
proof -
  from assms(1) obtain es' where a: "a < length vs"
    and r: "replaceEdge old new (v_edges (vs ! a)) = Some es'"
    and vs': "vs' = vs[a := (vs ! a)\<lparr>v_edges := es'\<rparr>]"
    by (auto simp: replaceEdgeAt_def split: if_splits)
  from replaceEdge_filter [OF r, of P] assms(2)
  have f: "filter P es' = (if P old then remove1 old (filter P (v_edges (vs ! a))) else filter P (v_edges (vs ! a)))"
    by simp
  have "filter P (v_edges (vs' ! b))
             = (if b = a \<and> P old then remove1 old (filter P (v_edges (vs ! b)))
                else filter P (v_edges (vs ! b)))" if "b < length vs" for b
  proof (cases "b = a")
    case True
    with a f show ?thesis by (simp add: vs')
  next
    case False
    with that show ?thesis by (simp add: vs')
  qed
  then show ?thesis by (simp add: vs')
qed

lemma filter_neq_absent: "count (mset xs) i = 0 \<Longrightarrow> filter (\<lambda>x. x \<noteq> i) xs = xs"
  by (induction xs) (auto split: if_splits)

lemma remove1_once: "count (mset xs) i = 1 \<Longrightarrow> remove1 i xs = filter (\<lambda>x. x \<noteq> i) xs"
  by (induction xs) (auto simp: filter_neq_absent split: if_splits)

lemma remove1_twice:
  "count (mset xs) i = 2 \<Longrightarrow> remove1 i (remove1 i xs) = filter (\<lambda>x. x \<noteq> i) xs"
  by (induction xs) (auto simp: remove1_once split: if_splits)

lemma count_filter_lt: "i < m \<Longrightarrow> count (mset (filter (\<lambda>x. x < m) xs)) i = count (mset xs) i"
  by (induction xs) auto

text \<open>The edge lists of a graph with splices, with the added edges left out, are the edge
  lists of the graph \<open>g0\<close> they were made from with the inactive edges left out: a splice
  writes the added edge in the place of the edge it deactivates and moves nothing.\<close>

definition keepsOrder :: "'p QgsTracerGraph \<Rightarrow> 'p QgsTracerGraph \<Rightarrow> bool" where
  "keepsOrder g0 g \<longleftrightarrow>
     (\<forall>a < length (g_v g0).
        filter (\<lambda>x. x < length (g_e g0)) (v_edges (g_v g ! a))
          = filter (\<lambda>x. x \<notin> set (inactiveEdges g)) (v_edges (g_v g0 ! a)))"

lemma wfGraph_edge_bound:
  assumes "wfGraph g" and "a < length (g_v g)" and "x \<in> set (v_edges (g_v g ! a))"
  shows "x < length (g_e g) \<and> x \<notin> set (inactiveEdges g) \<and> 0 < incidence (g_e g ! x) a"
proof -
  from assms(3) have "count (mset (v_edges (g_v g ! a))) x > 0"
    by (simp add: count_greater_zero_iff del: count_mset)
  with wfGraph_count [OF assms(1,2), of x] show ?thesis
    by (simp split: if_splits del: count_mset)
qed

lemma keepsOrder_clean:
  assumes "wfGraph g" and "inactiveEdges g = []"
  shows "keepsOrder g g"
  using wfGraph_edge_bound [OF assms(1)] assms(2) by (simp add: keepsOrder_def)

lemma joinVertexToGraph_keepsOrder:
  fixes g0 g :: "'p QgsTracerGraph"
  assumes wf0: "wfGraph g0"
    and sp: "splicedOn (length (g_v g0)) (length (g_e g0)) g"
    and ko: "keepsOrder g0 g"
    and pe: "point2edge G g pt defaultEpsilon = Some (i, lva)"
    and j: "joinVertexToGraph G g pt = Some (g', r)"
  shows "keepsOrder g0 g'"
proof -
  define n0 m0 n m a1 a2 where "n0 = length (g_v g0)" and "m0 = length (g_e g0)"
    and "n = length (g_v g)" and "m = length (g_e g)"
    and "a1 = e_v1 (g_e g ! i)" and "a2 = e_v2 (g_e g ! i)"
  let ?P = "\<lambda>x. x < m0"
  from sp have wf: "wfGraph g" and ln: "n0 \<le> n" and lm: "m0 \<le> m"
    by (simp_all add: splicedOn_def n0_def m0_def n_def m_def)
  from point2edge_Some [OF pe] have i: "i < m" "i \<notin> set (inactiveEdges g)"
    by (simp_all add: m_def)
  from j pe obtain vs1 vs2 v where
    r1: "replaceEdgeAt a1 i m (g_v g) = Some vs1"
    and r2: "replaceEdgeAt a2 i (m + 1) vs1 = Some vs2"
    and gv: "g_v g' = vs2 @ [v]"
    and ia: "inactiveEdges g' = setInsert i (inactiveEdges g)"
    by (auto simp: joinVertexToGraph_def Let_def a1_def a2_def m_def split: option.splits)
  have nm: "\<not> ?P m" "\<not> ?P (m + 1)" using lm by simp_all
  from replaceEdgeAt_filter [OF r1, of ?P] nm have l1: "length vs1 = n"
    and f1: "\<And>b. b < n \<Longrightarrow> filter ?P (v_edges (vs1 ! b))
             = (if b = a1 \<and> i < m0 then remove1 i (filter ?P (v_edges (g_v g ! b)))
                else filter ?P (v_edges (g_v g ! b)))"
    by (simp_all add: n_def)
  from replaceEdgeAt_filter [OF r2, of ?P] nm l1 have l2: "length vs2 = n"
    and f2: "\<And>b. b < n \<Longrightarrow> filter ?P (v_edges (vs2 ! b))
             = (if b = a2 \<and> i < m0 then remove1 i (filter ?P (v_edges (vs1 ! b)))
                else filter ?P (v_edges (vs1 ! b)))"
    by simp_all
  have "filter ?P (v_edges (g_v g' ! a))
          = filter (\<lambda>x. x \<notin> set (inactiveEdges g')) (v_edges (g_v g0 ! a))"
    if a: "a < n0" for a
  proof -
    let ?L = "filter ?P (v_edges (g_v g ! a))"
    let ?K = "v_edges (g_v g0 ! a)"
    have an: "a < n" using a ln by simp
    have old: "?L = filter (\<lambda>x. x \<notin> set (inactiveEdges g)) ?K"
      using ko a by (simp only: keepsOrder_def n0_def m0_def)
    have new: "filter ?P (v_edges (g_v g' ! a)) = filter ?P (v_edges (vs2 ! a))"
      using an l2 by (simp add: gv nth_append)
    have set': "set (inactiveEdges g') = insert i (set (inactiveEdges g))"
      by (auto simp: ia setInsert_def)
    have split: "filter (\<lambda>x. x \<notin> set (inactiveEdges g')) ?K = filter (\<lambda>x. x \<noteq> i) ?L"
      unfolding old set' by (simp add: conj_commute)
    show ?thesis
    proof (cases "i < m0")
      case False
      have "\<forall>x \<in> set ?L. x \<noteq> i" using False by auto
      then have "filter (\<lambda>x. x \<noteq> i) ?L = ?L" by (simp only: filter_True)
      with False f1 [OF an] f2 [OF an] new split show ?thesis by simp
    next
      case True
      have c: "count (mset ?L) i = incidence (g_e g ! i) a"
        using wfGraph_count [OF wf, of a i] an i True
        by (simp add: count_filter_lt n_def m_def del: count_mset)
      consider "a = a1" "a = a2" | "a = a1" "a \<noteq> a2" | "a \<noteq> a1" "a = a2" | "a \<noteq> a1" "a \<noteq> a2"
        by blast
      then have "filter ?P (v_edges (vs2 ! a)) = filter (\<lambda>x. x \<noteq> i) ?L"
      proof cases
        case 1
        then have "incidence (g_e g ! i) a = 2" by (simp add: incidence_def a1_def a2_def)
        with c have "remove1 i (remove1 i ?L) = filter (\<lambda>x. x \<noteq> i) ?L"
          by (simp add: remove1_twice del: count_mset)
        with 1 True f1 [OF an] f2 [OF an] show ?thesis by simp
      next
        case 2
        then have "incidence (g_e g ! i) a = 1" by (auto simp: incidence_def a1_def a2_def)
        with c have "remove1 i ?L = filter (\<lambda>x. x \<noteq> i) ?L"
          by (simp add: remove1_once del: count_mset)
        with 2 True f1 [OF an] f2 [OF an] show ?thesis by simp
      next
        case 3
        then have "incidence (g_e g ! i) a = 1" by (auto simp: incidence_def a1_def a2_def)
        with c have "remove1 i ?L = filter (\<lambda>x. x \<noteq> i) ?L"
          by (simp add: remove1_once del: count_mset)
        with 3 True f1 [OF an] f2 [OF an] show ?thesis by simp
      next
        case 4
        then have "incidence (g_e g ! i) a = 0" by (auto simp: incidence_def a1_def a2_def)
        with c have "count (mset ?L) i = 0" by (simp only:)
        then have "filter (\<lambda>x. x \<noteq> i) ?L = ?L" by (rule filter_neq_absent)
        moreover have "filter ?P (v_edges (vs2 ! a)) = ?L"
          using 4 f1 [OF an] f2 [OF an] by simp
        ultimately show ?thesis by (simp only:)
      qed
      with new split show ?thesis by simp
    qed
  qed
  then show ?thesis by (simp add: keepsOrder_def n0_def m0_def)
qed

lemma pointInGraph_keepsOrder:
  fixes g0 g :: "'p QgsTracerGraph"
  assumes wf0: "wfGraph g0"
    and sp: "splicedOn (length (g_v g0)) (length (g_e g0)) g"
    and ko: "keepsOrder g0 g"
    and p: "pointInGraph G g pt = Some (g', r)"
  shows "keepsOrder g0 g'"
proof (cases "point2vertex G g pt defaultEpsilon")
  case (Some v)
  with p ko show ?thesis by (simp add: pointInGraph_def)
next
  case None
  with p have j: "joinVertexToGraph G g pt = Some (g', r)" by (simp add: pointInGraph_def)
  show ?thesis
  proof (cases "point2edge G g pt defaultEpsilon")
    case None
    with j ko show ?thesis by (simp add: joinVertexToGraph_def)
  next
    case (Some x)
    obtain i lva where "x = (i, lva)" by (cases x) auto
    with Some joinVertexToGraph_keepsOrder [OF wf0 sp ko _ j] show ?thesis by simp
  qed
qed


text \<open>The edge lists that \<^verbatim>\<open>resetGraph\<close> leaves: the list of the vertex without the added
  edges, then the restored edges that end at the vertex, in the order of the loop.\<close>

lemma resetGraph_lists:
  fixes g :: "'p QgsTracerGraph"
  assumes sp: "splicedOn n0 m0 g" and rg: "resetGraph rank g = Some g'"
  shows "\<forall>a < n0. v_edges (g_v g' ! a)
           = filter (\<lambda>x. x < m0) (v_edges (g_v g ! a))
             @ restores (take m0 (g_e g)) a (sort_key rank (inactiveEdges g))"
proof (intro allI impI)
  fix a assume a: "a < n0"
  define es vs bs where "es = take m0 (g_e g)" and "vs = take n0 (g_v g)"
    and "bs = sort_key rank (inactiveEdges g)"
  have sbs: "set bs = set (inactiveEdges g)" by (simp add: bs_def)
  from sp have wf: "wfGraph g" and ln: "length (g_v g) = n0 + joinedVertices g"
    and lm: "length (g_e g) = m0 + 2 * joinedVertices g"
    and orig: "\<And>j. j < m0 \<Longrightarrow> e_v1 (g_e g ! j) < n0 \<and> e_v2 (g_e g ! j) < n0"
    and w5: "\<And>a x. a < n0 \<Longrightarrow> \<forall>b \<in> set bs. b < m0 \<longrightarrow> incidence (g_e g ! b) a = 0
               \<Longrightarrow> x \<in> set (v_edges (g_v g ! a)) \<Longrightarrow> x < m0"
    unfolding splicedOn_def sbs by blast+
  have les: "length es = m0" and lvs: "length vs = n0"
    using ln lm by (simp_all add: es_def vs_def)
  have es_nth: "es ! j = g_e g ! j" if "j < m0" for j
    using that by (simp add: es_def)
  have vs_nth: "vs ! a = g_v g ! a" if "a < n0" for a
    using that by (simp add: vs_def)
  have dist: "distinct bs" using wf by (simp add: wfGraph_def bs_def)
  have "\<forall>b \<in> set bs. b < length es \<longrightarrow> e_v1 (es ! b) < length vs \<and> e_v2 (es ! b) < length vs"
    using orig es_nth by (simp add: les lvs)
  from resetGraph_loop_effect [OF this] obtain vs' where
    lp: "resetGraph_loop es bs vs = Some vs'"
    and ed: "\<And>a. a < n0 \<Longrightarrow> v_edges (vs' ! a)
                 = (if restores es a bs = [] then v_edges (vs ! a)
                    else filter (\<lambda>x. x < m0) (v_edges (vs ! a)) @ restores es a bs)"
    unfolding les lvs by blast
  have "resetGraph rank g = Some \<lparr>g_v = vs', g_e = es, inactiveEdges = [], joinedVertices = 0\<rparr>"
    using ln lm lp by (simp add: resetGraph_def Let_def es_def vs_def bs_def)
  with rg have g': "g_v g' = vs'" by auto
  let ?L = "v_edges (g_v g ! a)"
  have "v_edges (vs' ! a) = filter (\<lambda>x. x < m0) ?L @ restores es a bs"
  proof (cases "restores es a bs = []")
    case False
    then show ?thesis using ed [OF a] vs_nth [OF a] by simp
  next
    case True
    have "incidence (g_e g ! b) a = 0" if b: "b \<in> set bs" "b < m0" for b
    proof -
      have "count (mset (restores es a bs)) b = 0" by (simp add: True del: count_mset)
      with count_restores [OF dist, of es a b] b es_nth [of b] show ?thesis
        by (simp add: les del: count_mset)
    qed
    then have "\<forall>x \<in> set ?L. x < m0"
      using w5 [OF a] by blast
    then have "filter (\<lambda>x. x < m0) ?L = ?L" by simp
    with True ed [OF a] vs_nth [OF a] show ?thesis by simp
  qed
  then show "v_edges (g_v g' ! a)
           = filter (\<lambda>x. x < m0) ?L @ restores (take m0 (g_e g)) a (sort_key rank (inactiveEdges g))"
    by (simp add: g' es_def bs_def)
qed

text \<open>Splices on a graph \<open>g0\<close> and the reset after them, together: the list of a vertex of
  \<open>g0\<close> loses the edges that were deactivated and gets them back at its end, in the order
  of the loop of \<^verbatim>\<open>resetGraph\<close>; the other entries keep their order.\<close>

lemma resetGraph_exact:
  fixes g0 g :: "'p QgsTracerGraph"
  assumes sp: "splicedOn (length (g_v g0)) (length (g_e g0)) g"
    and es: "take (length (g_e g0)) (g_e g) = g_e g0"
    and ko: "keepsOrder g0 g"
    and rg: "resetGraph rank g = Some g'"
    and a: "a < length (g_v g0)"
  shows "v_edges (g_v g' ! a)
           = filter (\<lambda>x. x \<notin> set (inactiveEdges g)) (v_edges (g_v g0 ! a))
             @ restores (g_e g0) a (sort_key rank (inactiveEdges g))"
proof -
  from resetGraph_lists [OF sp rg] a
  have "v_edges (g_v g' ! a)
           = filter (\<lambda>x. x < length (g_e g0)) (v_edges (g_v g ! a))
             @ restores (take (length (g_e g0)) (g_e g)) a (sort_key rank (inactiveEdges g))"
    by blast
  moreover from ko a have "filter (\<lambda>x. x < length (g_e g0)) (v_edges (g_v g ! a))
      = filter (\<lambda>x. x \<notin> set (inactiveEdges g)) (v_edges (g_v g0 ! a))"
    by (simp only: keepsOrder_def)
  ultimately show ?thesis by (simp only: es)
qed

text \<open>A vertex at which no deactivated edge ends is not touched.\<close>

lemma restores_Nil:
  assumes "\<forall>b \<in> set bs. b < length es \<longrightarrow> incidence (es ! b) a = 0"
  shows "restores es a bs = []"
  using assms by (induction bs) simp_all

lemma filter_inactive_untouched:
  fixes g0 :: "'p QgsTracerGraph"
  assumes wf0: "wfGraph g0" and a: "a < length (g_v g0)"
    and un: "\<forall>b \<in> B. b < length (g_e g0) \<longrightarrow> incidence (g_e g0 ! b) a = 0"
  shows "filter (\<lambda>x. x \<notin> B) (v_edges (g_v g0 ! a)) = v_edges (g_v g0 ! a)"
proof -
  have "x \<notin> B" if "x \<in> set (v_edges (g_v g0 ! a))" for x
    using wfGraph_edge_bound [OF wf0 a that] un by auto
  then show ?thesis by simp
qed

section \<open>Splice and revert\<close>

text \<open>Two graphs with the same vertex points, edges, inactive edges and counter, whose
  vertices list the same edges the same number of times, in any order.\<close>

definition sameUpToEdgeOrder :: "'p QgsTracerGraph \<Rightarrow> 'p QgsTracerGraph \<Rightarrow> bool" where
  "sameUpToEdgeOrder g g' \<longleftrightarrow>
     map v_pt (g_v g') = map v_pt (g_v g) \<and> g_e g' = g_e g
     \<and> inactiveEdges g' = inactiveEdges g \<and> joinedVertices g' = joinedVertices g
     \<and> (\<forall>a < length (g_v g). mset (v_edges (g_v g' ! a)) = mset (v_edges (g_v g ! a)))"

lemma resetGraph_after_splices:
  fixes g :: "'p QgsTracerGraph"
  assumes wf: "wfGraph g" and cl: "inactiveEdges g = []" "joinedVertices g = 0"
    and sp: "splicedOn (length (g_v g)) (length (g_e g)) g'"
    and es: "take (length (g_e g)) (g_e g') = g_e g"
    and ps: "take (length (g_v g)) (map v_pt (g_v g')) = map v_pt (g_v g)"
  shows "\<exists>g''. resetGraph rank g' = Some g'' \<and> sameUpToEdgeOrder g g'' \<and> wfGraph g''"
proof -
  from resetGraph_splicedOn [OF sp, of rank] obtain g'' where
    r: "resetGraph rank g' = Some g''" "wfGraph g''" "inactiveEdges g'' = []" "joinedVertices g'' = 0"
      "g_e g'' = take (length (g_e g)) (g_e g')" "length (g_v g'') = length (g_v g)"
      "map v_pt (g_v g'') = take (length (g_v g)) (map v_pt (g_v g'))"
    by blast
  have "mset (v_edges (g_v g'' ! a)) = mset (v_edges (g_v g ! a))" if "a < length (g_v g)" for a
    using wfGraph_same_edges [OF wf r(2) cl(1) r(3) _ r(6) that] r(5) es by simp
  with r es ps cl show ?thesis
    by (simp add: sameUpToEdgeOrder_def)
qed

text \<open>Claim C2, as amended.  On a well-formed graph without pending splices, for a point
  that \<^verbatim>\<open>point2edge\<close> finds on an active edge \<open>i\<close>, \<^verbatim>\<open>joinVertexToGraph\<close> adds one vertex and
  two edges and deactivates the edge, and \<^verbatim>\<open>resetGraph\<close> after it returns a graph with the
  vertex count, the vertex points and the edge sequence of the graph before the splice,
  no inactive edge and the counter at zero, which is well-formed again.  A vertex that
  is not an end of edge \<open>i\<close> has its edge list as before the splice.  An end of edge \<open>i\<close>
  has its list as before the splice with \<open>i\<close> taken out and put at the end (twice when
  both ends of the edge are this vertex); its other entries keep their order.\<close>

theorem splice_then_revert:
  fixes g :: "'p QgsTracerGraph"
  assumes "wfGraph g" and "inactiveEdges g = []" and "joinedVertices g = 0"
    and "point2edge G g pt defaultEpsilon = Some (i, k)"
  shows "\<exists>g' g''. joinVertexToGraph G g pt = Some (g', Some (length (g_v g)))
           \<and> length (g_v g') = length (g_v g) + 1 \<and> length (g_e g') = length (g_e g) + 2
           \<and> inactiveEdges g' = [i]
           \<and> resetGraph rank g' = Some g''
           \<and> length (g_v g'') = length (g_v g) \<and> length (g_e g'') = length (g_e g)
           \<and> sameUpToEdgeOrder g g'' \<and> wfGraph g''
           \<and> (\<forall>a < length (g_v g). v_edges (g_v g'' ! a)
                 = (if incidence (g_e g ! i) a = 0 then v_edges (g_v g ! a)
                    else filter (\<lambda>x. x \<noteq> i) (v_edges (g_v g ! a))
                         @ replicate (incidence (g_e g ! i) a) i))"
proof -
  from splicedOn_clean [OF assms(1-3)]
  have sp: "splicedOn (length (g_v g)) (length (g_e g)) g" .
  from joinVertexToGraph_splicedOn [OF sp assms(4)] obtain g' where
    j: "joinVertexToGraph G g pt = Some (g', Some (length (g_v g)))"
      "splicedOn (length (g_v g)) (length (g_e g)) g'"
      "take (length (g_e g)) (g_e g') = take (length (g_e g)) (g_e g)"
      "take (length (g_v g)) (map v_pt (g_v g')) = take (length (g_v g)) (map v_pt (g_v g))"
      "joinedVertices g' = joinedVertices g + 1" "inactiveEdges g' = inactiveEdges g @ [i]"
    by blast
  from resetGraph_after_splices [OF assms(1-3) j(2), of rank] j(3,4) obtain g'' where
    r: "resetGraph rank g' = Some g''" "sameUpToEdgeOrder g g''" "wfGraph g''"
    by auto
  from r(2) have "length (map v_pt (g_v g'')) = length (map v_pt (g_v g))" "length (g_e g'') = length (g_e g)"
    by (simp_all add: sameUpToEdgeOrder_def)
  then have l: "length (g_v g'') = length (g_v g)" "length (g_e g'') = length (g_e g)"
    by simp_all
  from j(2,5) assms(3) have l': "length (g_v g') = length (g_v g) + 1" "length (g_e g') = length (g_e g) + 2"
    by (simp_all add: splicedOn_def)
  have ia: "inactiveEdges g' = [i]" using j(6) assms(2) by simp
  from point2edge_Some [OF assms(4)] have i: "i < length (g_e g)" by simp
  have ko: "keepsOrder g g'"
    by (rule joinVertexToGraph_keepsOrder [OF assms(1) sp keepsOrder_clean [OF assms(1,2)] assms(4) j(1)])
  have es: "take (length (g_e g)) (g_e g') = g_e g" using j(3) by simp
  have "v_edges (g_v g'' ! a)
                 = (if incidence (g_e g ! i) a = 0 then v_edges (g_v g ! a)
                    else filter (\<lambda>x. x \<noteq> i) (v_edges (g_v g ! a))
                         @ replicate (incidence (g_e g ! i) a) i)"
    if a: "a < length (g_v g)" for a
  proof -
    from resetGraph_exact [OF j(2) es ko r(1) a]
    have e: "v_edges (g_v g'' ! a)
        = filter (\<lambda>x. x \<noteq> i) (v_edges (g_v g ! a)) @ replicate (incidence (g_e g ! i) a) i"
      using i by (simp add: ia)
    show ?thesis
    proof (cases "incidence (g_e g ! i) a = 0")
      case False
      with e show ?thesis by simp
    next
      case True
      then have "\<forall>b \<in> {i}. b < length (g_e g) \<longrightarrow> incidence (g_e g ! b) a = 0" by simp
      from filter_inactive_untouched [OF assms(1) a this] e True show ?thesis by simp
    qed
  qed
  with j(1) l l' ia r show ?thesis by blast
qed

text \<open>Two lines that start at the same point.\<close>

definition twoLines :: "point list list" where
  "twoLines = [[(0,0),(10,0)],[(0,0),(0,10)]]"

lemma twoLines_graph:
  "makeGraph planar twoLines =
     \<lparr>g_v = [\<lparr>v_pt = (0, 0), v_edges = [0, 1]\<rparr>, \<lparr>v_pt = (10, 0), v_edges = [0]\<rparr>,
             \<lparr>v_pt = (0, 10), v_edges = [1]\<rparr>],
      g_e = [\<lparr>e_v1 = 0, e_v2 = 1, e_coords = [(0, 0), (10, 0)]\<rparr>,
             \<lparr>e_v1 = 0, e_v2 = 2, e_coords = [(0, 0), (0, 10)]\<rparr>],
      inactiveEdges = [], joinedVertices = 0\<rparr>"
  by (simp add: twoLines_def run_defs)

theorem splice_then_revert_witness:
  "wfGraph (makeGraph planar twoLines) \<and> inactiveEdges (makeGraph planar twoLines) = []
   \<and> joinedVertices (makeGraph planar twoLines) = 0
   \<and> point2edge planar (makeGraph planar twoLines) (5, 0) defaultEpsilon = Some (0, 1)
   \<and> (\<exists>g' g''. joinVertexToGraph planar (makeGraph planar twoLines) (5, 0)
                  = Some (g', Some (length (g_v (makeGraph planar twoLines))))
           \<and> length (g_v g') = length (g_v (makeGraph planar twoLines)) + 1
           \<and> length (g_e g') = length (g_e (makeGraph planar twoLines)) + 2
           \<and> inactiveEdges g' = [0]
           \<and> resetGraph (\<lambda>i. i) g' = Some g''
           \<and> length (g_v g'') = length (g_v (makeGraph planar twoLines))
           \<and> length (g_e g'') = length (g_e (makeGraph planar twoLines))
           \<and> sameUpToEdgeOrder (makeGraph planar twoLines) g'' \<and> wfGraph g''
           \<and> v_edges (g_v g'' ! 0) = [1, 0] \<and> v_edges (g_v g'' ! 1) = [0]
           \<and> v_edges (g_v g'' ! 2) = [1])"
proof -
  let ?g = "makeGraph planar twoLines"
  have wf: "wfGraph ?g" "inactiveEdges ?g = []" "joinedVertices ?g = 0"
    using makeGraph_wf [of planar twoLines] by simp_all
  have pe: "point2edge planar ?g (5, 0) defaultEpsilon = Some (0, 1)"
    by (simp add: twoLines_graph) (simp add: run_defs)
  from splice_then_revert [OF wf pe, of "\<lambda>i. i"] obtain g' g'' where
    h: "joinVertexToGraph planar ?g (5, 0) = Some (g', Some (length (g_v ?g)))"
      "length (g_v g') = length (g_v ?g) + 1" "length (g_e g') = length (g_e ?g) + 2"
      "inactiveEdges g' = [0]" "resetGraph (\<lambda>i. i) g' = Some g''"
      "length (g_v g'') = length (g_v ?g)" "length (g_e g'') = length (g_e ?g)"
      "sameUpToEdgeOrder ?g g''" "wfGraph g''"
    and ex: "\<And>a. a < length (g_v ?g) \<Longrightarrow> v_edges (g_v g'' ! a)
                 = (if incidence (g_e ?g ! 0) a = 0 then v_edges (g_v ?g ! a)
                    else filter (\<lambda>x. x \<noteq> 0) (v_edges (g_v ?g ! a))
                         @ replicate (incidence (g_e ?g ! 0) a) 0)"
    by blast
  have "v_edges (g_v g'' ! 0) = [1, 0]" "v_edges (g_v g'' ! 1) = [0]" "v_edges (g_v g'' ! 2) = [1]"
    using ex [of 0] ex [of 1] ex [of 2] by (simp_all add: twoLines_graph incidence_def)
  with h wf pe show ?thesis by blast
qed

text \<open>Claim C2 as the spec states it fails: in the graph of the two lines, vertex 0 lists
  the edges 0, 1; after the point (5,0) is joined to edge 0 and the graph is reset,
  vertex 0 lists them as 1, 0, because \<^verbatim>\<open>resetGraph\<close> appends a restored edge to the list.\<close>

theorem splice_then_revert_counterexample:
  "v_edges (g_v (makeGraph planar twoLines) ! 0) = [0, 1]
   \<and> point2edge planar (makeGraph planar twoLines) (5, 0) defaultEpsilon = Some (0, 1)
   \<and> map_option (\<lambda>g''. v_edges (g_v g'' ! 0))
        (Option.bind (joinVertexToGraph planar (makeGraph planar twoLines) (5, 0))
           (\<lambda>r. resetGraph (\<lambda>i. i) (fst r))) = Some [1, 0]"
  by (simp add: twoLines_graph) (simp add: run_defs)

section \<open>What a query leaves of the cached graph\<close>

text \<open>Claim C1, as amended.  In a session whose cached graph \<open>g\<close> is well-formed and has no
  pending splices, when \<^verbatim>\<open>findShortestPath\<close> returns with a path or with \<^verbatim>\<open>ErrNoPath\<close>, the
  session is the one before the call with a cached graph that has the vertex points, the
  edge sequence, the empty set of inactive edges and the zero counter of \<open>g\<close>, and that is
  well-formed, so the next query starts as this one did.  The edge lists are these: with
  \<open>g2\<close> the graph after the lookups of the two points, whose inactive edges are the edges
  that the lookups have spliced, the list of a vertex is its list in \<open>g\<close> without the
  inactive edges of \<open>g2\<close>, followed by the inactive edges of \<open>g2\<close> that end at the vertex, in
  the order in which the loop of \<^verbatim>\<open>resetGraph\<close> visits them (an edge with both ends at the
  vertex twice).  A vertex at which no spliced edge ends has its list as before the
  call.  Nothing is said here of a query that returns \<^verbatim>\<open>ErrPoint1\<close> or \<^verbatim>\<open>ErrPoint2\<close>.\<close>

theorem findShortestPath_reverts_splices:
  fixes g :: "'p QgsTracerGraph"
  assumes t: "mGraph t = Some g" and wf: "wfGraph g" and cl: "inactiveEdges g = []" "joinedVertices g = 0"
    and res: "findShortestPath C t p1 p2 = Some (t', points, err)"
    and err: "err \<noteq> ErrPoint1" "err \<noteq> ErrPoint2"
  shows "\<exists>g1 v1 g2 v2 g''.
           pointInGraph (geom C) g p1 = Some (g1, v1) \<and> pointInGraph (geom C) g1 p2 = Some (g2, v2)
         \<and> t' = t\<lparr>mGraph := Some g''\<rparr> \<and> sameUpToEdgeOrder g g'' \<and> wfGraph g''
         \<and> (\<forall>a < length (g_v g). v_edges (g_v g'' ! a)
               = filter (\<lambda>x. x \<notin> set (inactiveEdges g2)) (v_edges (g_v g ! a))
                 @ restores (g_e g) a (sort_key (qsetRank C) (inactiveEdges g2)))
         \<and> (\<forall>a < length (g_v g).
               (\<forall>b \<in> set (inactiveEdges g2). b < length (g_e g) \<longrightarrow> incidence (g_e g ! b) a = 0)
               \<longrightarrow> v_edges (g_v g'' ! a) = v_edges (g_v g ! a))"
proof -
  let ?n = "length (g_v g)" and ?m = "length (g_e g)"
  from splicedOn_clean [OF wf cl] have sp: "splicedOn ?n ?m g" .
  from pointInGraph_splicedOn [OF sp, of "geom C" p1] obtain g1 v1 where
    p1: "pointInGraph (geom C) g p1 = Some (g1, v1)" "splicedOn ?n ?m g1"
      "take ?m (g_e g1) = take ?m (g_e g)" "take ?n (map v_pt (g_v g1)) = take ?n (map v_pt (g_v g))"
    by blast
  from pointInGraph_splicedOn [OF p1(2), of "geom C" p2] obtain g2 v2 where
    p2: "pointInGraph (geom C) g1 p2 = Some (g2, v2)" "splicedOn ?n ?m g2"
      "take ?m (g_e g2) = take ?m (g_e g1)" "take ?n (map v_pt (g_v g2)) = take ?n (map v_pt (g_v g1))"
    by blast
  from resetGraph_after_splices [OF wf cl p2(2), of "qsetRank C"] p1(3,4) p2(3,4) obtain g'' where
    r: "resetGraph (qsetRank C) g2 = Some g''" "sameUpToEdgeOrder g g''" "wfGraph g''"
    by auto
  have i: "init C t = (True, t)" by (simp add: init_def t)
  from res err have t': "t' = t\<lparr>mGraph := Some g''\<rparr>"
    by (auto simp: findShortestPath_def findShortestPathBody_def i t p1(1) p2(1) r(1) Let_def
        split: if_splits option.splits)
  have k1: "keepsOrder g g1"
    by (rule pointInGraph_keepsOrder [OF wf sp keepsOrder_clean [OF wf cl(1)] p1(1)])
  have k2: "keepsOrder g g2"
    by (rule pointInGraph_keepsOrder [OF wf p1(2) k1 p2(1)])
  have es: "take ?m (g_e g2) = g_e g" using p1(3) p2(3) by simp
  have ex: "v_edges (g_v g'' ! a)
               = filter (\<lambda>x. x \<notin> set (inactiveEdges g2)) (v_edges (g_v g ! a))
                 @ restores (g_e g) a (sort_key (qsetRank C) (inactiveEdges g2))"
    if "a < ?n" for a
    by (rule resetGraph_exact [OF p2(2) es k2 r(1) that])
  have un: "v_edges (g_v g'' ! a) = v_edges (g_v g ! a)"
    if a: "a < ?n"
      and u: "\<forall>b \<in> set (inactiveEdges g2). b < ?m \<longrightarrow> incidence (g_e g ! b) a = 0" for a
  proof -
    from u have "restores (g_e g) a (sort_key (qsetRank C) (inactiveEdges g2)) = []"
      by (intro restores_Nil) simp
    with ex [OF a] filter_inactive_untouched [OF wf a u] show ?thesis by simp
  qed
  from p1(1) p2(1) t' r(2,3) ex un show ?thesis by blast
qed

section \<open>The query returns\<close>

definition processed :: "bool list \<Rightarrow> nat" where
  "processed F = length (filter (\<lambda>b. b) F)"

lemma processed_update:
  "u < length F \<Longrightarrow> \<not> F ! u \<Longrightarrow> processed (F[u := True]) = Suc (processed F)"
proof (induction F arbitrary: u)
  case Nil
  then show ?case by simp
next
  case (Cons b F)
  then show ?case by (cases u) (auto simp: processed_def)
qed

lemma processed_less:
  "u < length F \<Longrightarrow> \<not> F ! u \<Longrightarrow> processed F < length F"
proof (induction F arbitrary: u)
  case Nil
  then show ?case by simp
next
  case (Cons b F)
  show ?case
  proof (cases u)
    case 0
    with Cons.prems have "\<not> b" by simp
    moreover have "length (filter (\<lambda>b. b) F) \<le> length F" by simp
    ultimately show ?thesis by (simp add: processed_def less_Suc_eq_le)
  next
    case (Suc u')
    with Cons.prems Cons.IH [of u'] show ?thesis
      by (auto simp: processed_def)
  qed
qed

lemma processed_le: "processed F \<le> length F"
  by (simp add: processed_def)

text \<open>The predecessor edges lead back in the order in which the vertices were processed:
  the edge stored for a vertex leads to a processed vertex, and to one processed earlier
  when the vertex is processed itself.  \<open>rank\<close> numbers the processed vertices.\<close>

definition predOrder ::
  "'p QgsTracerGraph \<Rightarrow> (nat \<Rightarrow> nat) \<Rightarrow> bool list \<Rightarrow> nat option list \<Rightarrow> bool" where
  "predOrder g rank F S \<longleftrightarrow>
     length F = length (g_v g) \<and> length S = length (g_v g)
     \<and> (\<forall>v < length (g_v g). \<forall>ei. S ! v = Some ei \<longrightarrow>
           ei < length (g_e g) \<and> otherVertex (g_e g ! ei) v < length (g_v g)
           \<and> F ! otherVertex (g_e g ! ei) v
           \<and> (F ! v \<longrightarrow> rank (otherVertex (g_e g ! ei) v) < rank v))
     \<and> (\<forall>v < length (g_v g). F ! v \<longrightarrow> rank v < processed F)"

definition predInv :: "'p QgsTracerGraph \<Rightarrow> (nat \<Rightarrow> nat) \<Rightarrow> dijkstraState \<Rightarrow> bool" where
  "predInv g rank st \<longleftrightarrow>
     (case st of (Q, D, F, S, u0) \<Rightarrow>
        length D = length (g_v g) \<and> (\<forall>q \<in> set Q. fst q < length (g_v g))
        \<and> (\<forall>x. u0 = Some x \<longrightarrow> x < length (g_v g))
        \<and> predOrder g rank F S)"

text \<open>The edges in the list of a vertex end at the vertex.\<close>

definition edgesIncident :: "'p QgsTracerGraph \<Rightarrow> bool" where
  "edgesIncident g \<longleftrightarrow>
     (\<forall>x < length (g_v g). \<forall>ei \<in> set (v_edges (g_v g ! x)).
        e_v1 (g_e g ! ei) = x \<or> e_v2 (g_e g ! ei) = x)"

lemma wfGraph_edgesIncident: "wfGraph g \<Longrightarrow> edgesIncident g"
proof (unfold edgesIncident_def, intro allI impI ballI)
  fix x ei
  assume wf: "wfGraph g" and x: "x < length (g_v g)" and ei: "ei \<in> set (v_edges (g_v g ! x))"
  from ei have "count (mset (v_edges (g_v g ! x))) ei > 0"
    by (simp add: count_greater_zero_iff del: count_mset)
  with wfGraph_count [OF wf x, of ei] have "incidence (g_e g ! ei) x > 0"
    by (simp split: if_splits del: count_mset)
  then show "e_v1 (g_e g ! ei) = x \<or> e_v2 (g_e g ! ei) = x"
    by (auto simp: incidence_def split: if_splits)
qed

lemma otherVertex_back:
  "e_v1 e = x \<or> e_v2 e = x \<Longrightarrow> otherVertex e (otherVertex e x) = x"
  by (auto simp: otherVertex_def)

text \<open>What the inner loop does to \<open>S\<close>: an entry is as before, or is an edge of \<open>u\<close> that
  leads to the entry's vertex, a vertex that is not processed and is not \<open>u\<close>.\<close>

lemma relaxEdges_pred:
  assumes "relaxEdges G g u F es (D, S, Q) = Some (D', S', Q')"
    and "\<forall>ei \<in> set es. 0 \<le> weight G (g_e g ! ei)"
  shows "length S' = length S
       \<and> (\<forall>v < length S. S' ! v = S ! v
             \<or> (\<exists>ei \<in> set es. S' ! v = Some ei \<and> ei < length (g_e g)
                   \<and> v = otherVertex (g_e g ! ei) u \<and> \<not> F ! v \<and> v \<noteq> u))"
  using assms
proof (induction es arbitrary: D S Q)
  case Nil
  then show ?case by simp
next
  case (Cons ei es)
  let ?v = "otherVertex (g_e g ! ei) u"
  let ?d = "D ! u + weight G (g_e g ! ei)"
  from Cons.prems(1) have r: "ei < length (g_e g)" "?v < length S" "?v < length D" "u < length D"
    by (auto split: if_splits)
  have w: "0 \<le> weight G (g_e g ! ei)" and ws: "\<forall>ei \<in> set es. 0 \<le> weight G (g_e g ! ei)"
    using Cons.prems(2) by simp_all
  show ?case
  proof (cases "\<not> F ! ?v \<and> ?d < D ! ?v")
    case True
    with w have vu: "?v \<noteq> u" by auto
    from Cons.prems(1) True r
    have "relaxEdges G g u F es (D[?v := ?d], S[?v := Some ei], Q @ [(?v, ?d)]) = Some (D', S', Q')"
      by (auto split: if_splits)
    from Cons.IH [OF this ws] have l: "length S' = length S"
      and h: "\<And>v. v < length S \<Longrightarrow> S' ! v = S[?v := Some ei] ! v
             \<or> (\<exists>ei \<in> set es. S' ! v = Some ei \<and> ei < length (g_e g)
                   \<and> v = otherVertex (g_e g ! ei) u \<and> \<not> F ! v \<and> v \<noteq> u)"
      by simp_all
    have "S' ! v = S ! v
             \<or> (\<exists>ei \<in> set (ei # es). S' ! v = Some ei \<and> ei < length (g_e g)
                   \<and> v = otherVertex (g_e g ! ei) u \<and> \<not> F ! v \<and> v \<noteq> u)"
      if v: "v < length S" for v
    proof (cases "v = ?v")
      case False
      with h [OF v] show ?thesis by auto
    next
      case eq: True
      from h [OF v] show ?thesis
      proof
        assume "S' ! v = S[?v := Some ei] ! v"
        with eq v have "S' ! v = Some ei" by simp
        with eq True vu r(1) show ?thesis by auto
      next
        assume "\<exists>ei \<in> set es. S' ! v = Some ei \<and> ei < length (g_e g)
                   \<and> v = otherVertex (g_e g ! ei) u \<and> \<not> F ! v \<and> v \<noteq> u"
        then show ?thesis by auto
      qed
    qed
    with l show ?thesis by blast
  next
    case False
    from Cons.prems(1) False r
    have "relaxEdges G g u F es (D, S, Q) = Some (D', S', Q')"
      by (auto split: if_splits)
    from Cons.IH [OF this ws] show ?thesis by auto
  qed
qed


lemma predOrder_step:
  assumes po: "predOrder g rank F S" and u: "u < length (g_v g)" and Fu: "\<not> F ! u"
    and inc: "edgesIncident g" and rng: "edgesInRange g"
    and l: "length S' = length S"
    and ch: "\<And>v. v < length S \<Longrightarrow> S' ! v = S ! v
             \<or> (\<exists>ei \<in> set (v_edges (g_v g ! u)). S' ! v = Some ei \<and> ei < length (g_e g)
                   \<and> v = otherVertex (g_e g ! ei) u \<and> \<not> F ! v \<and> v \<noteq> u)"
  shows "predOrder g (rank (u := processed F)) (F[u := True]) S'"
proof -
  define n where "n = length (g_v g)"
  from po have lF: "length F = n" and lS: "length S = n"
    and pr: "\<And>v ei. v < n \<Longrightarrow> S ! v = Some ei \<Longrightarrow>
           ei < length (g_e g) \<and> otherVertex (g_e g ! ei) v < n
           \<and> F ! otherVertex (g_e g ! ei) v
           \<and> (F ! v \<longrightarrow> rank (otherVertex (g_e g ! ei) v) < rank v)"
    and rk: "\<And>v. v < n \<Longrightarrow> F ! v \<Longrightarrow> rank v < processed F"
    by (simp_all add: predOrder_def n_def)
  have un: "u < n" using u by (simp add: n_def)
  have pF: "processed (F[u := True]) = Suc (processed F)"
    using processed_update [of u F] un lF Fu by simp
  have 1: "ei < length (g_e g) \<and> otherVertex (g_e g ! ei) v < n
           \<and> (F[u := True]) ! otherVertex (g_e g ! ei) v
           \<and> ((F[u := True]) ! v \<longrightarrow>
                (rank (u := processed F)) (otherVertex (g_e g ! ei) v) < (rank (u := processed F)) v)"
    if v: "v < n" and s: "S' ! v = Some ei" for v ei
  proof -
    from ch [of v] v lS consider "S' ! v = S ! v"
      | ej where "ej \<in> set (v_edges (g_v g ! u))" "S' ! v = Some ej" "ej < length (g_e g)"
          "v = otherVertex (g_e g ! ej) u" "\<not> F ! v" "v \<noteq> u"
      by auto
    then show ?thesis
    proof cases
      case 1
      with s have s0: "S ! v = Some ei" by simp
      let ?o = "otherVertex (g_e g ! ei) v"
      from pr [OF v s0] have a: "ei < length (g_e g)" "?o < n" "F ! ?o"
        and b: "F ! v \<Longrightarrow> rank ?o < rank v" by simp_all
      from a(3) Fu have ou: "?o \<noteq> u" by auto
      have "(F[u := True]) ! ?o" using a(2,3) lF un by (simp add: nth_list_update)
      moreover have "(rank (u := processed F)) ?o < (rank (u := processed F)) v"
        if "(F[u := True]) ! v"
      proof (cases "v = u")
        case True
        with ou rk [OF a(2) a(3)] show ?thesis by simp
      next
        case False
        with that v lF un have "F ! v" by (simp add: nth_list_update)
        from b [OF this] False ou show ?thesis by simp
      qed
      ultimately show ?thesis using a(1,2) by blast
    next
      case 2
      with s have e: "ej = ei" by simp
      from inc un 2(1) have "e_v1 (g_e g ! ej) = u \<or> e_v2 (g_e g ! ej) = u"
        by (simp add: edgesIncident_def n_def)
      from otherVertex_back [OF this] 2(4) have o: "otherVertex (g_e g ! ei) v = u"
        by (simp add: e)
      have "(F[u := True]) ! u" using un lF by simp
      moreover have "\<not> (F[u := True]) ! v" using 2(5,6) v lF un by (simp add: nth_list_update)
      ultimately show ?thesis using 2(3) un o e by simp
    qed
  qed
  have 2: "(rank (u := processed F)) v < processed (F[u := True])"
    if v: "v < n" and f: "(F[u := True]) ! v" for v
  proof (cases "v = u")
    case True
    then show ?thesis by (simp add: pF)
  next
    case False
    with f v lF un have "F ! v" by (simp add: nth_list_update)
    from rk [OF v this] False show ?thesis by (simp add: pF)
  qed
  show ?thesis
    unfolding predOrder_def
    using 1 2 lF lS l by (simp add: n_def)
qed

lemma dijkstraStep_pred:
  assumes rng: "edgesInRange g" and inc: "edgesIncident g"
    and nonneg: "\<forall>ei < length (g_e g). 0 \<le> weight G (g_e g ! ei)"
    and inv: "predInv g rank st"
  shows "(\<exists>S u F. dijkstraStep G g b st = Finished S u
            \<and> (u = Some b \<longrightarrow> b < length (g_v g) \<and> predOrder g rank F S))
       \<or> (\<exists>st' rank'. dijkstraStep G g b st = Continue st' \<and> predInv g rank' st')"
proof -
  obtain Q D F S u0 where st: "st = (Q, D, F, S, u0)" by (cases st) auto
  define n where "n = length (g_v g)"
  from inv have lD: "length D = n"
    and q: "\<And>q. q \<in> set Q \<Longrightarrow> fst q < n"
    and u0: "\<And>x. u0 = Some x \<Longrightarrow> x < n"
    and po: "predOrder g rank F S"
    by (auto simp: predInv_def st n_def)
  from po have lF: "length F = n" and lS: "length S = n"
    by (simp_all add: predOrder_def n_def)
  show ?thesis
  proof (cases "Q = []")
    case True
    have "dijkstraStep G g b st = Finished S u0" by (simp add: dijkstraStep_def st True)
    moreover have "u0 = Some b \<longrightarrow> b < length (g_v g) \<and> predOrder g rank F S"
      using u0 po by (auto simp: n_def)
    ultimately show ?thesis by blast
  next
    case False
    define u where "u = fst (queueTop Q)"
    from queueTop_in [OF False] q have u: "u < n" by (simp add: u_def)
    have sub: "set (queuePop Q) \<subseteq> set Q"
      by (simp add: queuePop_def set_remove1_subset)
    show ?thesis
    proof (cases "u = b")
      case True
      have "dijkstraStep G g b st = Finished S (Some u)"
        using False True by (simp add: dijkstraStep_def st Let_def u_def)
      moreover have "b < length (g_v g) \<and> predOrder g rank F S"
        using True u po by (simp add: n_def)
      ultimately show ?thesis using True by blast
    next
      case ub: False
      show ?thesis
      proof (cases "F ! u")
        case True
        have "dijkstraStep G g b st = Continue (queuePop Q, D, F, S, Some u)"
          using False ub u True lF by (simp add: dijkstraStep_def st Let_def u_def)
        moreover have "predInv g rank (queuePop Q, D, F, S, Some u)"
          using lD q sub u po by (auto simp: predInv_def n_def)
        ultimately show ?thesis by blast
      next
        case Fu: False
        have er: "\<forall>ei \<in> set (v_edges (g_v g ! u)). ei < length (g_e g) \<and> otherVertex (g_e g ! ei) u < n"
          using rng u by (simp add: edgesInRange_def n_def)
        from relaxEdges_ok [OF er lD lS lF u, of G "queuePop Q"] obtain D' S' Q' where
          r: "relaxEdges G g u F (v_edges (g_v g ! u)) (D, S, queuePop Q) = Some (D', S', Q')"
            "length D' = n" "length S' = n"
            "\<forall>q \<in> set Q'. q \<in> set (queuePop Q)
                 \<or> (\<exists>ei \<in> set (v_edges (g_v g ! u)). fst q = otherVertex (g_e g ! ei) u)"
          by blast
        have w: "\<forall>ei \<in> set (v_edges (g_v g ! u)). 0 \<le> weight G (g_e g ! ei)"
          using er nonneg by simp
        from relaxEdges_pred [OF r(1) w]
        have ch: "\<And>v. v < length S \<Longrightarrow> S' ! v = S ! v
             \<or> (\<exists>ei \<in> set (v_edges (g_v g ! u)). S' ! v = Some ei \<and> ei < length (g_e g)
                   \<and> v = otherVertex (g_e g ! ei) u \<and> \<not> F ! v \<and> v \<noteq> u)"
          and l: "length S' = length S"
          by simp_all
        have un: "u < length (g_v g)" using u by (simp add: n_def)
        from predOrder_step [OF po un Fu inc rng l ch]
        have po': "predOrder g (rank (u := processed F)) (F[u := True]) S'" by simp
        have "dijkstraStep G g b st = Continue (Q', D', F[u := True], S', Some u)"
          using False ub u Fu lF r(1) by (simp add: dijkstraStep_def st Let_def u_def n_def)
        moreover have "fst p < n" if p: "p \<in> set Q'" for p
        proof -
          from r(4) p consider "p \<in> set (queuePop Q)"
            | ei where "ei \<in> set (v_edges (g_v g ! u))" "fst p = otherVertex (g_e g ! ei) u"
            by blast
          then show ?thesis
          proof cases
            case 1
            with sub q show ?thesis by blast
          next
            case 2
            with er show ?thesis by simp
          qed
        qed
        then have "predInv g (rank (u := processed F)) (Q', D', F[u := True], S', Some u)"
          using r(2) u po' by (auto simp: predInv_def n_def)
        ultimately show ?thesis by blast
      qed
    qed
  qed
qed

lemma dijkstraLoop_pred:
  assumes "edgesInRange g" and "edgesIncident g"
    and "\<forall>ei < length (g_e g). 0 \<le> weight G (g_e g ! ei)"
    and "predInv g rank st"
  shows "\<exists>S u. dijkstraLoop G g b st = Some (S, u)
           \<and> (u = Some b \<longrightarrow> b < length (g_v g) \<and> (\<exists>rank F. predOrder g rank F S))"
  using assms
proof (induction G g b st arbitrary: rank rule: dijkstraLoop.induct)
  case (1 G g v2 st)
  from dijkstraStep_pred [OF "1.prems", of v2]
  consider S u F where "dijkstraStep G g v2 st = Finished S u"
      "u = Some v2 \<longrightarrow> v2 < length (g_v g) \<and> predOrder g rank F S"
    | st' rank' where "dijkstraStep G g v2 st = Continue st'" "predInv g rank' st'"
    by blast
  then show ?case
  proof cases
    case 1
    then show ?thesis by auto
  next
    case 2
    from "1.IH" [OF 2(1) "1.prems"(1,2,3) 2(2)] 2(1) show ?thesis by simp
  qed
qed

text \<open>The walk back from a processed vertex ends within as many steps as its number.\<close>

lemma buildPath_returns:
  assumes "predOrder g rank F S"
  shows "v < length (g_v g) \<Longrightarrow> F ! v \<Longrightarrow> rank v < k
           \<Longrightarrow> \<exists>r. buildPath k G g S v pts = Some r"
proof (induction k arbitrary: v pts)
  case 0
  then show ?case by simp
next
  case (Suc k)
  from assms have lS: "length S = length (g_v g)" by (simp add: predOrder_def)
  show ?case
  proof (cases "S ! v")
    case None
    with Suc.prems(1) lS show ?thesis by simp
  next
    case (Some ei)
    let ?o = "otherVertex (g_e g ! ei) v"
    from assms Suc.prems(1,2) Some have a: "ei < length (g_e g)" "?o < length (g_v g)" "F ! ?o"
      "rank ?o < rank v"
      by (simp_all add: predOrder_def)
    with Suc.prems(3) have "rank ?o < k" by simp
    from Suc.IH [OF a(2,3) this] Some Suc.prems(1) lS a(1) show ?thesis
      by (simp add: Let_def)
  qed
qed

lemma buildPath_target:
  assumes po: "predOrder g rank F S" and b: "b < length (g_v g)"
  shows "\<exists>r. buildPath (length (g_v g)) G g S b pts = Some r"
proof (cases "S ! b")
  case None
  from po have "length S = length (g_v g)" by (simp add: predOrder_def)
  with None b show ?thesis by simp
next
  case (Some ei)
  let ?o = "otherVertex (g_e g ! ei) b"
  from po have lS: "length S = length (g_v g)" and lF: "length F = length (g_v g)"
    by (simp_all add: predOrder_def)
  from po b Some have a: "ei < length (g_e g)" "?o < length (g_v g)" "F ! ?o"
    and lt: "F ! b \<Longrightarrow> rank ?o < rank b"
    by (simp_all add: predOrder_def)
  from po a(2,3) have ro: "rank ?o < processed F" by (simp add: predOrder_def)
  obtain k where k: "length (g_v g) = Suc k" using b by (cases "length (g_v g)") auto
  have "rank ?o < k"
  proof (cases "F ! b")
    case True
    from po b True have "rank b < processed F" by (simp add: predOrder_def)
    with lt [OF True] processed_le [of F] lF k show ?thesis by simp
  next
    case False
    from processed_less [of b F] b lF False ro k show ?thesis by simp
  qed
  from buildPath_returns [OF po a(2,3) this] obtain r where
    "buildPath k G g S ?o
       (appendLine G (if pts \<noteq> [] then deleteVertex G pts (int (length pts)) else pts)
          (if \<not> pointEq G (startPoint G (e_coords (g_e g ! ei))) (v_pt (g_v g ! b))
           then rev (e_coords (g_e g ! ei)) else e_coords (g_e g ! ei))) = Some r"
    by blast
  with Some b lS a(1) k show ?thesis by (simp add: Let_def)
qed

text \<open>On a well-formed graph whose edges have no negative length, the search and the walk
  back both end and read nothing out of range.\<close>

lemma shortestPath_returns:
  assumes wf: "wfGraph g" and nonneg: "\<forall>ei < length (g_e g). 0 \<le> weight G (g_e g ! ei)"
    and a: "\<forall>a. v1 = Some a \<longrightarrow> a < length (g_v g)"
  shows "\<exists>pts. shortestPath G g v1 v2 = Some pts"
proof (cases v1)
  case None
  then show ?thesis by (simp add: shortestPath_def)
next
  case v1: (Some a)
  show ?thesis
  proof (cases v2)
    case None
    then show ?thesis by (simp add: shortestPath_def v1)
  next
    case v2: (Some b)
    let ?n = "length (g_v g)"
    let ?st = "([(a, 0)], (replicate ?n DBL_MAX)[a := 0], replicate ?n False, replicate ?n None, None)"
    from a v1 have an: "a < ?n" by simp
    have "predInv g (\<lambda>v. 0) ?st"
      using an by (simp add: predInv_def predOrder_def)
    from dijkstraLoop_pred [OF wfGraph_edgesInRange [OF wf] wfGraph_edgesIncident [OF wf] nonneg this, of b]
    obtain S u where l: "dijkstraLoop G g b ?st = Some (S, u)"
      and w: "u = Some b \<Longrightarrow> b < ?n \<and> (\<exists>rank F. predOrder g rank F S)"
      by blast
    show ?thesis
    proof (cases "u = Some b")
      case False
      with l an show ?thesis by (simp add: shortestPath_def v1 v2 Let_def)
    next
      case True
      from w [OF True] obtain rank F where b: "b < ?n" and po: "predOrder g rank F S" by blast
      from buildPath_target [OF po b, of G "[]"] obtain r where
        "buildPath ?n G g S b [] = Some r" by blast
      with l an True show ?thesis by (simp add: shortestPath_def v1 v2 Let_def)
    qed
  qed
qed

text \<open>In a session whose cached graph is well-formed and has no pending splices, and with
  a geometry in which no line has a negative length, \<^verbatim>\<open>findShortestPath\<close> returns: nothing
  is read out of range, and the search and the walk back of \<^verbatim>\<open>shortestPath\<close> end.\<close>

lemma findShortestPath_returns:
  fixes g :: "'p QgsTracerGraph"
  assumes t: "mGraph t = Some g" and wf: "wfGraph g" and cl: "inactiveEdges g = []" "joinedVertices g = 0"
    and nonneg: "\<forall>c. 0 \<le> lineLength (geom C) c"
  shows "\<exists>t' points err. findShortestPath C t p1 p2 = Some (t', points, err)"
proof -
  let ?n = "length (g_v g)" and ?m = "length (g_e g)"
  from splicedOn_clean [OF wf cl] have sp: "splicedOn ?n ?m g" .
  from pointInGraph_splicedOn [OF sp, of "geom C" p1] obtain g1 v1 where
    p1: "pointInGraph (geom C) g p1 = Some (g1, v1)" "splicedOn ?n ?m g1"
      "take ?m (g_e g1) = take ?m (g_e g)" "take ?n (map v_pt (g_v g1)) = take ?n (map v_pt (g_v g))"
      "\<forall>v. v1 = Some v \<longrightarrow> v < length (g_v g1)"
    by blast
  from pointInGraph_splicedOn [OF p1(2), of "geom C" p2] obtain g2 v2 where
    p2: "pointInGraph (geom C) g1 p2 = Some (g2, v2)" "splicedOn ?n ?m g2"
      "take ?m (g_e g2) = take ?m (g_e g1)" "take ?n (map v_pt (g_v g2)) = take ?n (map v_pt (g_v g1))"
      "joinedVertices g1 \<le> joinedVertices g2"
    by blast
  from resetGraph_after_splices [OF wf cl p2(2), of "qsetRank C"] p1(3,4) p2(3,4) obtain g'' where
    r: "resetGraph (qsetRank C) g2 = Some g''"
    by auto
  from p1(2) p2(2,5) have "length (g_v g1) \<le> length (g_v g2)" by (simp add: splicedOn_def)
  with p1(5) have a: "\<forall>a. v1 = Some a \<longrightarrow> a < length (g_v g2)" by auto
  from p2(2) have wf2: "wfGraph g2" by (simp add: splicedOn_def)
  have "\<forall>ei < length (g_e g2). 0 \<le> weight (geom C) (g_e g2 ! ei)"
    using nonneg by (simp add: weight_def)
  from shortestPath_returns [OF wf2 this a, of v2] obtain pts where
    s: "shortestPath (geom C) g2 v1 v2 = Some pts" by blast
  have i: "init C t = (True, t)" by (simp add: init_def t)
  show ?thesis
    by (simp add: findShortestPath_def findShortestPathBody_def i t p1(1) p2(1) r s Let_def)
qed

text \<open>So does every query of a session over the planar geometry, on the graph that \<^verbatim>\<open>init\<close>
  has built.\<close>

lemma planarLength_nonneg: "0 \<le> planarLength c"
  by (induction c rule: planarLength.induct) (simp_all add: segmentLength_def)

lemma findShortestPath_returns_planar:
  "\<exists>t' points err. findShortestPath (planarSession ls) (builtTracer ls) p1 p2 = Some (t', points, err)"
proof -
  let ?g = "makeGraph planar (concat (map (\<lambda>line. [line]) ls))"
  have t: "mGraph (builtTracer ls) = Some ?g" by (simp add: builtTracer_graph)
  have n: "\<forall>c. 0 \<le> lineLength (geom (planarSession ls)) c"
    by (simp add: planarSession_def planar_def planarLength_nonneg)
  from makeGraph_wf [of planar "concat (map (\<lambda>line. [line]) ls)"]
  have "wfGraph ?g" "inactiveEdges ?g = []" "joinedVertices ?g = 0" by simp_all
  from findShortestPath_returns [OF t this n] show ?thesis .
qed

section \<open>A point that is not on the graph\<close>

lemma pointInGraph_total:
  assumes "wfGraph g"
  shows "\<exists>g' r. pointInGraph G g pt = Some (g', r)"
proof (cases "point2edge G g pt defaultEpsilon")
  case None
  then show ?thesis
    by (simp add: pointInGraph_def joinVertexToGraph_def split: option.splits)
next
  case (Some r)
  obtain i lva where "r = (i, lva)" by (cases r) auto
  with joinVertexToGraph_splice [OF assms, of G pt i lva] Some show ?thesis
    by (auto simp: pointInGraph_def split: option.splits)
qed

lemma pointInGraph_unresolved:
  assumes "point2vertex G g pt defaultEpsilon = None" and "point2edge G g pt defaultEpsilon = None"
  shows "pointInGraph G g pt = Some (g, None)"
  using assms by (simp add: pointInGraph_def joinVertexToGraph_def)

text \<open>Claim C6, as amended.  In a session with a well-formed cached graph: when the first
  point is neither at a vertex (\<^verbatim>\<open>point2vertex\<close>) nor on an active edge (\<^verbatim>\<open>point2edge\<close>) of the
  graph, \<^verbatim>\<open>findShortestPath\<close> returns no points and \<^verbatim>\<open>ErrPoint1\<close>; when the first point resolves
  to a vertex and the second point is neither at a vertex nor on an active edge of the
  graph as the first lookup has left it, \<^verbatim>\<open>findShortestPath\<close> returns no points and
  \<^verbatim>\<open>ErrPoint2\<close>.  The graph that the first lookup leaves is the cached graph when the first
  point is at one of its vertices, and the cached graph with the first point joined to
  its edge otherwise.  Both results are the same for every solver put in the place of
  \<^verbatim>\<open>shortestPath\<close>, also for one that never returns a path: the solver is not run.\<close>

theorem unresolved_point_error:
  fixes g :: "'p QgsTracerGraph"
  assumes t: "mGraph t = Some g" and wf: "wfGraph g"
  shows "(point2vertex (geom C) g p1 defaultEpsilon = None \<and> point2edge (geom C) g p1 defaultEpsilon = None
            \<longrightarrow> (\<exists>g2. findShortestPathBody solver C t p1 p2 = Some (t\<lparr>mGraph := Some g2\<rparr>, [], ErrPoint1)
                    \<and> findShortestPath C t p1 p2 = Some (t\<lparr>mGraph := Some g2\<rparr>, [], ErrPoint1)))
       \<and> (\<forall>g1 a. pointInGraph (geom C) g p1 = Some (g1, Some a)
              \<and> point2vertex (geom C) g1 p2 defaultEpsilon = None
              \<and> point2edge (geom C) g1 p2 defaultEpsilon = None
            \<longrightarrow> findShortestPathBody solver C t p1 p2 = Some (t\<lparr>mGraph := Some g1\<rparr>, [], ErrPoint2)
                \<and> findShortestPath C t p1 p2 = Some (t\<lparr>mGraph := Some g1\<rparr>, [], ErrPoint2))"
proof (intro conjI allI impI)
  have i: "init C t = (True, t)" by (simp add: init_def t)
  {
    assume "point2vertex (geom C) g p1 defaultEpsilon = None \<and> point2edge (geom C) g p1 defaultEpsilon = None"
    then have a: "pointInGraph (geom C) g p1 = Some (g, None)"
      by (simp add: pointInGraph_unresolved)
    from pointInGraph_total [OF wf, of "geom C" p2] obtain g2 v2 where
      b: "pointInGraph (geom C) g p2 = Some (g2, v2)" by blast
    have "findShortestPathBody sv C t p1 p2 = Some (t\<lparr>mGraph := Some g2\<rparr>, [], ErrPoint1)" for sv
      by (simp add: findShortestPathBody_def i t a b)
    then show "\<exists>g2. findShortestPathBody solver C t p1 p2 = Some (t\<lparr>mGraph := Some g2\<rparr>, [], ErrPoint1)
                    \<and> findShortestPath C t p1 p2 = Some (t\<lparr>mGraph := Some g2\<rparr>, [], ErrPoint1)"
      by (auto simp: findShortestPath_def)
  }
  fix g1 a
  assume h: "pointInGraph (geom C) g p1 = Some (g1, Some a)
              \<and> point2vertex (geom C) g1 p2 defaultEpsilon = None
              \<and> point2edge (geom C) g1 p2 defaultEpsilon = None"
  then have b: "pointInGraph (geom C) g1 p2 = Some (g1, None)"
    by (simp add: pointInGraph_unresolved)
  have r: "findShortestPathBody sv C t p1 p2 = Some (t\<lparr>mGraph := Some g1\<rparr>, [], ErrPoint2)" for sv
    using h by (simp add: findShortestPathBody_def i t b)
  from r show "findShortestPathBody solver C t p1 p2 = Some (t\<lparr>mGraph := Some g1\<rparr>, [], ErrPoint2)" .
  from r show "findShortestPath C t p1 p2 = Some (t\<lparr>mGraph := Some g1\<rparr>, [], ErrPoint2)"
    by (simp add: findShortestPath_def)
qed

section \<open>Two points that no path connects\<close>


lemma builtTracer_twoLines:
  "builtTracer twoLines = newTracer\<lparr>mGraph := Some (makeGraph planar twoLines)\<rparr>"
  by (simp add: builtTracer_graph twoLines_def)

definition twoLinesAfterQuery :: "point QgsTracerGraph" where
  "twoLinesAfterQuery =
     \<lparr>g_v = [\<lparr>v_pt = (0, 0), v_edges = [1, 0]\<rparr>, \<lparr>v_pt = (10, 0), v_edges = [0]\<rparr>,
             \<lparr>v_pt = (0, 10), v_edges = [1]\<rparr>],
      g_e = [\<lparr>e_v1 = 0, e_v2 = 1, e_coords = [(0, 0), (10, 0)]\<rparr>,
             \<lparr>e_v1 = 0, e_v2 = 2, e_coords = [(0, 0), (0, 10)]\<rparr>],
      inactiveEdges = [], joinedVertices = 0\<rparr>"

lemma twoLines_query:
  "findShortestPath (planarSession twoLines) (builtTracer twoLines) (5, 0) (0, 10)
     = Some ((builtTracer twoLines)\<lparr>mGraph := Some twoLinesAfterQuery\<rparr>, [(5, 0), (0, 0), (0, 10)], ErrNone)"
  by (simp add: builtTracer_twoLines twoLines_graph twoLinesAfterQuery_def)
     (simp add: run_defs)

text \<open>The graph of the two lines with the point (5,0) joined.\<close>

definition twoLinesSpliced :: "point QgsTracerGraph" where
  "twoLinesSpliced =
     \<lparr>g_v = [\<lparr>v_pt = (0, 0), v_edges = [2, 1]\<rparr>, \<lparr>v_pt = (10, 0), v_edges = [3]\<rparr>,
             \<lparr>v_pt = (0, 10), v_edges = [1]\<rparr>, \<lparr>v_pt = (5, 0), v_edges = [2, 3]\<rparr>],
      g_e = [\<lparr>e_v1 = 0, e_v2 = 1, e_coords = [(0, 0), (10, 0)]\<rparr>,
             \<lparr>e_v1 = 0, e_v2 = 2, e_coords = [(0, 0), (0, 10)]\<rparr>,
             \<lparr>e_v1 = 0, e_v2 = 3, e_coords = [(0, 0), (5, 0)]\<rparr>,
             \<lparr>e_v1 = 3, e_v2 = 1, e_coords = [(5, 0), (10, 0)]\<rparr>],
      inactiveEdges = [0], joinedVertices = 1\<rparr>"

lemma twoLines_join:
  "pointInGraph planar (makeGraph planar twoLines) (5, 0) = Some (twoLinesSpliced, Some 3)"
  "pointInGraph planar twoLinesSpliced (0, 10) = Some (twoLinesSpliced, Some 2)"
  by (simp_all add: twoLines_graph twoLinesSpliced_def) (simp_all add: run_defs)

theorem findShortestPath_reverts_splices_witness:
  "mGraph (builtTracer twoLines) = Some (makeGraph planar twoLines)
   \<and> wfGraph (makeGraph planar twoLines)
   \<and> inactiveEdges (makeGraph planar twoLines) = [] \<and> joinedVertices (makeGraph planar twoLines) = 0
   \<and> findShortestPath (planarSession twoLines) (builtTracer twoLines) (5, 0) (0, 10)
       = Some ((builtTracer twoLines)\<lparr>mGraph := Some twoLinesAfterQuery\<rparr>, [(5, 0), (0, 0), (0, 10)], ErrNone)
   \<and> ErrNone \<noteq> ErrPoint1 \<and> ErrNone \<noteq> ErrPoint2
   \<and> (\<exists>g2 v2 g''.
         pointInGraph planar (makeGraph planar twoLines) (5, 0) = Some (twoLinesSpliced, Some 3)
       \<and> pointInGraph planar twoLinesSpliced (0, 10) = Some (g2, v2)
       \<and> inactiveEdges g2 = [0]
       \<and> (builtTracer twoLines)\<lparr>mGraph := Some twoLinesAfterQuery\<rparr>
            = (builtTracer twoLines)\<lparr>mGraph := Some g''\<rparr>
       \<and> sameUpToEdgeOrder (makeGraph planar twoLines) g'' \<and> wfGraph g''
       \<and> v_edges (g_v g'' ! 0) = [1, 0] \<and> v_edges (g_v g'' ! 1) = [0]
       \<and> v_edges (g_v g'' ! 2) = [1])"
proof -
  let ?g = "makeGraph planar twoLines"
  have t: "mGraph (builtTracer twoLines) = Some ?g"
    by (simp add: builtTracer_twoLines)
  have wf: "wfGraph ?g" "inactiveEdges ?g = []" "joinedVertices ?g = 0"
    using makeGraph_wf [of planar twoLines] by simp_all
  have e: "ErrNone \<noteq> ErrPoint1" "ErrNone \<noteq> ErrPoint2" by simp_all
  have c: "geom (planarSession twoLines) = planar" "qsetRank (planarSession twoLines) = (\<lambda>i. i)"
    by (simp_all add: planarSession_def)
  from findShortestPath_reverts_splices [OF t wf twoLines_query e] obtain g1 v1 g2 v2 g'' where
    p1: "pointInGraph planar ?g (5, 0) = Some (g1, v1)"
    and p2: "pointInGraph planar g1 (0, 10) = Some (g2, v2)"
    and h: "(builtTracer twoLines)\<lparr>mGraph := Some twoLinesAfterQuery\<rparr>
            = (builtTracer twoLines)\<lparr>mGraph := Some g''\<rparr>"
      "sameUpToEdgeOrder ?g g''" "wfGraph g''"
    and ex: "\<And>a. a < length (g_v ?g) \<Longrightarrow> v_edges (g_v g'' ! a)
               = filter (\<lambda>x. x \<notin> set (inactiveEdges g2)) (v_edges (g_v ?g ! a))
                 @ restores (g_e ?g) a (sort_key (\<lambda>i. i) (inactiveEdges g2))"
    unfolding c by blast
  from p1 twoLines_join(1) have g1: "g1 = twoLinesSpliced" by simp
  from p2 twoLines_join(2) have g2: "g2 = twoLinesSpliced" by (simp add: g1)
  have ia: "inactiveEdges g2 = [0]" by (simp add: g2 twoLinesSpliced_def)
  have "v_edges (g_v g'' ! 0) = [1, 0]" "v_edges (g_v g'' ! 1) = [0]" "v_edges (g_v g'' ! 2) = [1]"
    using ex [of 0] ex [of 1] ex [of 2] by (simp_all add: ia twoLines_graph incidence_def)
  with t wf twoLines_query e twoLines_join(1) p2 [unfolded g1] ia h show ?thesis by blast
qed

text \<open>Claim C1 as the spec states it fails: the query from (5,0) to (0,10) on the two
  lines finds the path over (0,0), and leaves vertex 0 of the cached graph with the edge
  list 1, 0 where it was 0, 1 before the call.\<close>

theorem findShortestPath_reverts_splices_counterexample:
  "mGraph (builtTracer twoLines) = Some (makeGraph planar twoLines)
   \<and> v_edges (g_v (makeGraph planar twoLines) ! 0) = [0, 1]
   \<and> map_option (\<lambda>r. (map_option (\<lambda>g. v_edges (g_v g ! 0)) (mGraph (fst r)), snd r))
        (findShortestPath (planarSession twoLines) (builtTracer twoLines) (5, 0) (0, 10))
       = Some (Some [1, 0], [(5, 0), (0, 0), (0, 10)], ErrNone)"
  by (simp add: twoLines_query) (simp add: builtTracer_twoLines twoLines_graph twoLinesAfterQuery_def)

text \<open>One line, and its graph with the point (5,0) joined.\<close>

definition oneLine :: "point list list" where
  "oneLine = [[(0,0),(10,0)]]"

lemma oneLine_graph:
  "makeGraph planar oneLine =
     \<lparr>g_v = [\<lparr>v_pt = (0, 0), v_edges = [0]\<rparr>, \<lparr>v_pt = (10, 0), v_edges = [0]\<rparr>],
      g_e = [\<lparr>e_v1 = 0, e_v2 = 1, e_coords = [(0, 0), (10, 0)]\<rparr>],
      inactiveEdges = [], joinedVertices = 0\<rparr>"
  by (simp add: oneLine_def run_defs)

lemma builtTracer_oneLine:
  "builtTracer oneLine = newTracer\<lparr>mGraph := Some (makeGraph planar oneLine)\<rparr>"
  by (simp add: builtTracer_graph oneLine_def)

definition oneLineSpliced :: "point QgsTracerGraph" where
  "oneLineSpliced =
     \<lparr>g_v = [\<lparr>v_pt = (0, 0), v_edges = [1]\<rparr>, \<lparr>v_pt = (10, 0), v_edges = [2]\<rparr>,
             \<lparr>v_pt = (5, 0), v_edges = [1, 2]\<rparr>],
      g_e = [\<lparr>e_v1 = 0, e_v2 = 1, e_coords = [(0, 0), (10, 0)]\<rparr>,
             \<lparr>e_v1 = 0, e_v2 = 2, e_coords = [(0, 0), (5, 0)]\<rparr>,
             \<lparr>e_v1 = 2, e_v2 = 1, e_coords = [(5, 0), (10, 0)]\<rparr>],
      inactiveEdges = [0], joinedVertices = 1\<rparr>"

lemma oneLine_join: "pointInGraph planar (makeGraph planar oneLine) (5, 0) = Some (oneLineSpliced, Some 2)"
  by (simp add: oneLine_graph oneLineSpliced_def) (simp add: run_defs)

text \<open>The graph of the one line with the point (5, 0.0009996) joined.\<close>

definition oneLineNearSplice :: "point QgsTracerGraph" where
  "oneLineNearSplice =
     \<lparr>g_v = [\<lparr>v_pt = (0, 0), v_edges = [1]\<rparr>, \<lparr>v_pt = (10, 0), v_edges = [2]\<rparr>,
             \<lparr>v_pt = (5, 9996 / 10000000), v_edges = [1, 2]\<rparr>],
      g_e = [\<lparr>e_v1 = 0, e_v2 = 1, e_coords = [(0, 0), (10, 0)]\<rparr>,
             \<lparr>e_v1 = 0, e_v2 = 2, e_coords = [(0, 0), (5, 9996 / 10000000)]\<rparr>,
             \<lparr>e_v1 = 2, e_v2 = 1, e_coords = [(5, 9996 / 10000000), (10, 0)]\<rparr>],
      inactiveEdges = [0], joinedVertices = 1\<rparr>"

theorem unresolved_point_error_witness:
  "mGraph (builtTracer oneLine) = Some (makeGraph planar oneLine) \<and> wfGraph (makeGraph planar oneLine)
   \<and> point2vertex planar (makeGraph planar oneLine) (20, 20) defaultEpsilon = None
   \<and> point2edge planar (makeGraph planar oneLine) (20, 20) defaultEpsilon = None
   \<and> (\<exists>g2. findShortestPathBody (\<lambda>G g v1 v2. None) (planarSession oneLine) (builtTracer oneLine) (20, 20) (5, 0)
             = Some ((builtTracer oneLine)\<lparr>mGraph := Some g2\<rparr>, [], ErrPoint1)
           \<and> findShortestPath (planarSession oneLine) (builtTracer oneLine) (20, 20) (5, 0)
             = Some ((builtTracer oneLine)\<lparr>mGraph := Some g2\<rparr>, [], ErrPoint1))
   \<and> pointInGraph planar (makeGraph planar oneLine) (5, 0) = Some (oneLineSpliced, Some 2)
   \<and> point2vertex planar oneLineSpliced (20, 20) defaultEpsilon = None
   \<and> point2edge planar oneLineSpliced (20, 20) defaultEpsilon = None
   \<and> findShortestPathBody (\<lambda>G g v1 v2. None) (planarSession oneLine) (builtTracer oneLine) (5, 0) (20, 20)
       = Some ((builtTracer oneLine)\<lparr>mGraph := Some oneLineSpliced\<rparr>, [], ErrPoint2)
   \<and> findShortestPath (planarSession oneLine) (builtTracer oneLine) (5, 0) (20, 20)
       = Some ((builtTracer oneLine)\<lparr>mGraph := Some oneLineSpliced\<rparr>, [], ErrPoint2)"
proof -
  have t: "mGraph (builtTracer oneLine) = Some (makeGraph planar oneLine)"
    by (simp add: builtTracer_oneLine)
  have wf: "wfGraph (makeGraph planar oneLine)"
    using makeGraph_wf [of planar oneLine] by simp
  have g: "geom (planarSession oneLine) = planar"
    by (simp add: planarSession_def)
  have a: "point2vertex planar (makeGraph planar oneLine) (20, 20) defaultEpsilon = None"
    "point2edge planar (makeGraph planar oneLine) (20, 20) defaultEpsilon = None"
    by (simp_all add: oneLine_graph) (simp_all add: run_defs)
  have b: "point2vertex planar oneLineSpliced (20, 20) defaultEpsilon = None"
    "point2edge planar oneLineSpliced (20, 20) defaultEpsilon = None"
    by (simp_all add: oneLineSpliced_def) (simp_all add: run_defs)
  note first = unresolved_point_error [OF t wf, of "planarSession oneLine" "(20, 20)" "\<lambda>G g v1 v2. None" "(5, 0)",
      unfolded g, THEN conjunct1, rule_format, OF conjI [OF a]]
  note second = unresolved_point_error [OF t wf, of "planarSession oneLine" "(5, 0)" "\<lambda>G g v1 v2. None" "(20, 20)",
      unfolded g, THEN conjunct2, rule_format, OF conjI [OF oneLine_join conjI [OF b]]]
  from first second t wf a b oneLine_join show ?thesis
    by simp
qed

text \<open>Claim C6 as the spec states it fails.  The point (5, 0.0010004) is neither at a
  vertex nor on the edge of the cached graph of the one line: its squared distance from
  the line is more than 1e-6.  The point (5, 0.0009996) is on the edge.  In the query from
  (5, 0.0009996) to (5, 0.0010004) the first point is joined to the edge, \<^verbatim>\<open>point2vertex\<close>
  finds the second point within 1e-6 of the joined vertex, and the query goes on to
  \<^verbatim>\<open>shortestPath\<close> and returns \<^verbatim>\<open>ErrNoPath\<close>, not \<^verbatim>\<open>ErrPoint2\<close>.\<close>

theorem unresolved_point_error_counterexample:
  "mGraph (builtTracer oneLine) = Some (makeGraph planar oneLine)
   \<and> point2vertex planar (makeGraph planar oneLine) (5, 10004 / 10000000) defaultEpsilon = None
   \<and> point2edge planar (makeGraph planar oneLine) (5, 10004 / 10000000) defaultEpsilon = None
   \<and> pointInGraph planar (makeGraph planar oneLine) (5, 9996 / 10000000)
       = Some (oneLineNearSplice, Some 2)
   \<and> pointInGraph planar oneLineNearSplice (5, 10004 / 10000000) = Some (oneLineNearSplice, Some 2)
   \<and> findShortestPath (planarSession oneLine) (builtTracer oneLine)
         (5, 9996 / 10000000) (5, 10004 / 10000000)
       = Some (builtTracer oneLine, [], ErrNoPath)"
  by (simp add: builtTracer_oneLine oneLine_graph oneLineNearSplice_def) (simp add: run_defs)

text \<open>The two conditions are the only ways to the two errors: a query that returns
  \<^verbatim>\<open>ErrPoint1\<close> has a first point that is neither at a vertex nor on an active edge of the
  cached graph, and a query that returns \<^verbatim>\<open>ErrPoint2\<close> has a first point that resolves and
  a second point that is neither at a vertex nor on an active edge of the graph that the
  first lookup has left.\<close>

lemma pointInGraph_None:
  assumes "pointInGraph G g pt = Some (g', None)"
  shows "point2vertex G g pt defaultEpsilon = None \<and> point2edge G g pt defaultEpsilon = None"
  using assms
  by (auto simp: pointInGraph_def joinVertexToGraph_def Let_def split: option.splits)

lemma point_errors_only_if:
  assumes t: "mGraph t = Some g" and res: "findShortestPath C t p1 p2 = Some (t', points, err)"
  shows "(err = ErrPoint1 \<longrightarrow> point2vertex (geom C) g p1 defaultEpsilon = None
                               \<and> point2edge (geom C) g p1 defaultEpsilon = None)
       \<and> (err = ErrPoint2 \<longrightarrow>
            (\<exists>g1 a. pointInGraph (geom C) g p1 = Some (g1, Some a)
                  \<and> point2vertex (geom C) g1 p2 defaultEpsilon = None
                  \<and> point2edge (geom C) g1 p2 defaultEpsilon = None))"
proof -
  have i: "init C t = (True, t)" by (simp add: init_def t)
  from res obtain g1 v1 g2 v2 where
    p1: "pointInGraph (geom C) g p1 = Some (g1, v1)"
    and p2: "pointInGraph (geom C) g1 p2 = Some (g2, v2)"
    by (auto simp: findShortestPath_def findShortestPathBody_def i t split: option.splits)
  show ?thesis
  proof (rule conjI; rule impI)
    assume "err = ErrPoint1"
    with res have "v1 = None"
      by (auto simp: findShortestPath_def findShortestPathBody_def i t p1 p2 Let_def
          split: if_splits option.splits)
    with p1 pointInGraph_None [of "geom C" g p1 g1]
    show "point2vertex (geom C) g p1 defaultEpsilon = None
            \<and> point2edge (geom C) g p1 defaultEpsilon = None"
      by simp
  next
    assume "err = ErrPoint2"
    with res have v: "v1 \<noteq> None" "v2 = None"
      by (auto simp: findShortestPath_def findShortestPathBody_def i t p1 p2 Let_def
          split: if_splits option.splits)
    then obtain a where a: "v1 = Some a" by auto
    from v(2) p2 pointInGraph_None [of "geom C" g1 p2 g2]
    have "point2vertex (geom C) g1 p2 defaultEpsilon = None
            \<and> point2edge (geom C) g1 p2 defaultEpsilon = None"
      by simp
    with p1 a show "\<exists>g1 a. pointInGraph (geom C) g p1 = Some (g1, Some a)
                  \<and> point2vertex (geom C) g1 p2 defaultEpsilon = None
                  \<and> point2edge (geom C) g1 p2 defaultEpsilon = None"
      by blast
  qed
qed

text \<open>When the first point is at a vertex of the cached graph, the first lookup leaves
  the cached graph as it is, and the condition on the second point is one on the cached
  graph.\<close>

lemma second_point_on_cached_graph:
  assumes t: "mGraph t = Some g"
    and p1: "point2vertex (geom C) g p1 defaultEpsilon = Some a"
    and p2: "point2vertex (geom C) g p2 defaultEpsilon = None"
      "point2edge (geom C) g p2 defaultEpsilon = None"
  shows "findShortestPath C t p1 p2 = Some (t\<lparr>mGraph := Some g\<rparr>, [], ErrPoint2)"
proof -
  have i: "init C t = (True, t)" by (simp add: init_def t)
  have a: "pointInGraph (geom C) g p1 = Some (g, Some a)" by (simp add: pointInGraph_def p1)
  have b: "pointInGraph (geom C) g p2 = Some (g, None)" by (rule pointInGraph_unresolved [OF p2])
  show ?thesis
    by (simp add: findShortestPath_def findShortestPathBody_def i t a b)
qed










section \<open>The offset of a path\<close>

lemma rev_short: "length ls < 2 \<Longrightarrow> rev ls = ls"
  by (cases ls rule: list.exhaust [case_product list.exhaust]) (auto simp: neq_Nil_conv)

text \<open>Claim C9.  When both points resolve, the solver returns a path with points and the
  offset distance is not zero, \<^verbatim>\<open>findShortestPath\<close> passes the path with the four offset
  parameters to \<^verbatim>\<open>offsetCurve\<close>.  When that gives no line string the path is returned as it
  is.  When it gives a line string, the result is that line string, reversed exactly when
  the distance from its start to \<open>p2\<close> plus the distance from its end to \<open>p1\<close> is less than
  the distance from its start to \<open>p1\<close> plus the distance from its end to \<open>p2\<close>.  (The source
  makes the comparison for a line string of two or more points; a shorter one is its own
  reverse.)\<close>

theorem offset_of_found_path:
  assumes t: "mGraph t = Some g"
    and r1: "pointInGraph (geom C) g p1 = Some (g1, Some a)"
    and r2: "pointInGraph (geom C) g1 p2 = Some (g2, Some b)"
    and sp: "shortestPath (geom C) g2 (Some a) (Some b) = Some raw"
    and rs: "resetGraph (qsetRank C) g2 = Some g3"
    and raw: "raw \<noteq> []" and off: "mOffset t \<noteq> 0"
  shows "\<exists>path. findShortestPath C t p1 p2
                  = Some (t\<lparr>mGraph := Some g3\<rparr>, path, if path = [] then ErrNoPath else ErrNone)
           \<and> (offsetCurve (geom C) raw (mOffset t) (mOffsetSegments t) (mOffsetJoinStyle t)
                 (mOffsetMiterLimit t) = None \<longrightarrow> path = raw)
           \<and> (\<forall>ls. offsetCurve (geom C) raw (mOffset t) (mOffsetSegments t) (mOffsetJoinStyle t)
                      (mOffsetMiterLimit t) = Some ls
                 \<longrightarrow> path =
                     (if ptDistance (geom C) (startPoint (geom C) ls) p2
                           + ptDistance (geom C) (endPoint (geom C) ls) p1
                         < ptDistance (geom C) (startPoint (geom C) ls) p1
                           + ptDistance (geom C) (endPoint (geom C) ls) p2
                      then rev ls else ls))"
proof -
  have i: "init C t = (True, t)" by (simp add: init_def t)
  have f: "findShortestPath C t p1 p2
      = Some (t\<lparr>mGraph := Some g3\<rparr>, applyOffset (geom C) t p1 p2 raw,
              if applyOffset (geom C) t p1 p2 raw = [] then ErrNoPath else ErrNone)"
    by (simp add: findShortestPath_def findShortestPathBody_def i t r1 r2 sp rs Let_def)
  have n: "offsetCurve (geom C) raw (mOffset t) (mOffsetSegments t) (mOffsetJoinStyle t)
             (mOffsetMiterLimit t) = None \<Longrightarrow> applyOffset (geom C) t p1 p2 raw = raw"
    by (simp add: applyOffset_def raw off)
  have s: "applyOffset (geom C) t p1 p2 raw =
                     (if ptDistance (geom C) (startPoint (geom C) ls) p2
                           + ptDistance (geom C) (endPoint (geom C) ls) p1
                         < ptDistance (geom C) (startPoint (geom C) ls) p1
                           + ptDistance (geom C) (endPoint (geom C) ls) p2
                      then rev ls else ls)"
    if "offsetCurve (geom C) raw (mOffset t) (mOffsetSegments t) (mOffsetJoinStyle t)
             (mOffsetMiterLimit t) = Some ls" for ls
  proof (cases "2 \<le> length ls")
    case True
    with that show ?thesis
      by (simp add: applyOffset_def raw off map_nth Let_def)
  next
    case False
    then have "rev ls = ls" by (simp add: rev_short)
    with that False show ?thesis
      by (simp add: applyOffset_def raw off map_nth Let_def)
  qed
  show ?thesis
    by (rule exI [of _ "applyOffset (geom C) t p1 p2 raw"]) (simp add: f n s)
qed

lemma oneLine_resolve:
  "pointInGraph planar (makeGraph planar oneLine) (0, 0) = Some (makeGraph planar oneLine, Some 0)"
  "pointInGraph planar (makeGraph planar oneLine) (10, 0) = Some (makeGraph planar oneLine, Some 1)"
  "shortestPath planar (makeGraph planar oneLine) (Some 0) (Some 1) = Some [(0, 0), (10, 0)]"
  "resetGraph (qsetRank (planarSession oneLine)) (makeGraph planar oneLine)
     = Some (makeGraph planar oneLine)"
  by (simp_all add: oneLine_graph) (simp_all add: run_defs)


theorem offset_of_found_path_witness:
  "mGraph (setOffset (- 1) (builtTracer oneLine)) = Some (makeGraph planar oneLine)
   \<and> pointInGraph (geom (planarSession oneLine)) (makeGraph planar oneLine) (0, 0)
        = Some (makeGraph planar oneLine, Some 0)
   \<and> pointInGraph (geom (planarSession oneLine)) (makeGraph planar oneLine) (10, 0)
        = Some (makeGraph planar oneLine, Some 1)
   \<and> shortestPath (geom (planarSession oneLine)) (makeGraph planar oneLine) (Some 0) (Some 1)
        = Some [(0, 0), (10, 0)]
   \<and> resetGraph (qsetRank (planarSession oneLine)) (makeGraph planar oneLine)
        = Some (makeGraph planar oneLine)
   \<and> [(0, 0), (10, 0)] \<noteq> ([] :: point list)
   \<and> mOffset (setOffset (- 1) (builtTracer oneLine)) \<noteq> 0
   \<and> offsetCurve planar [(0, 0), (10, 0)] (- 1) 8 2 2 = Some [(10, - 1), (0, - 1)]
   \<and> findShortestPath (planarSession oneLine) (setOffset (- 1) (builtTracer oneLine)) (0, 0) (10, 0)
        = Some ((setOffset (- 1) (builtTracer oneLine))\<lparr>mGraph := Some (makeGraph planar oneLine)\<rparr>,
                [(0, - 1), (10, - 1)], ErrNone)"
proof -
  let ?t = "setOffset (- 1) (builtTracer oneLine)"
  have g: "geom (planarSession oneLine) = planar"
    by (simp add: planarSession_def)
  have t: "mGraph ?t = Some (makeGraph planar oneLine)"
    by (simp add: setOffset_def builtTracer_oneLine)
  have r: "pointInGraph (geom (planarSession oneLine)) (makeGraph planar oneLine) (0, 0)
        = Some (makeGraph planar oneLine, Some 0)"
    "pointInGraph (geom (planarSession oneLine)) (makeGraph planar oneLine) (10, 0)
        = Some (makeGraph planar oneLine, Some 1)"
    "shortestPath (geom (planarSession oneLine)) (makeGraph planar oneLine) (Some 0) (Some 1)
        = Some [(0, 0), (10, 0)]"
    by (simp_all only: g oneLine_resolve)
  have raw: "[(0, 0), (10, 0)] \<noteq> ([] :: point list)" by simp
  have off: "mOffset ?t \<noteq> 0" by (simp add: setOffset_def)
  have par: "mOffset ?t = - 1" "mOffsetSegments ?t = 8" "mOffsetJoinStyle ?t = 2" "mOffsetMiterLimit ?t = 2"
    by (simp_all add: setOffset_def builtTracer_oneLine newTracer_def)
  have oc: "offsetCurve planar [(0, 0), (10, 0)] (- 1) 8 2 2 = Some [(10, - 1), (0, - 1)]"
    by (simp add: planar_def planarOffsetCurve_def)
  have "1 < sqrt 101" by simp
  then have closer: "ptDistance planar (startPoint planar [(10, - 1), (0, - 1)]) (10, 0)
        + ptDistance planar (endPoint planar [(10, - 1), (0, - 1)]) (0, 0)
      < ptDistance planar (startPoint planar [(10, - 1), (0, - 1)]) (0, 0)
        + ptDistance planar (endPoint planar [(10, - 1), (0, - 1)]) (10, 0)"
    by (simp add: planar_def startPoint_def endPoint_def segmentLength_def)
  from offset_of_found_path [OF t r oneLine_resolve(4) raw off] obtain path where
    p: "findShortestPath (planarSession oneLine) ?t (0, 0) (10, 0)
          = Some (?t\<lparr>mGraph := Some (makeGraph planar oneLine)\<rparr>, path,
                  if path = [] then ErrNoPath else ErrNone)"
      "\<forall>ls. offsetCurve (geom (planarSession oneLine)) [(0, 0), (10, 0)] (mOffset ?t) (mOffsetSegments ?t)
              (mOffsetJoinStyle ?t) (mOffsetMiterLimit ?t) = Some ls
           \<longrightarrow> path =
                     (if ptDistance (geom (planarSession oneLine)) (startPoint (geom (planarSession oneLine)) ls) (10, 0)
                           + ptDistance (geom (planarSession oneLine)) (endPoint (geom (planarSession oneLine)) ls) (0, 0)
                         < ptDistance (geom (planarSession oneLine)) (startPoint (geom (planarSession oneLine)) ls) (0, 0)
                           + ptDistance (geom (planarSession oneLine)) (endPoint (geom (planarSession oneLine)) ls) (10, 0)
                      then rev ls else ls)"
    by blast
  from p(2) [unfolded g par, rule_format, OF oc] closer have "path = [(0, - 1), (10, - 1)]"
    by simp
  with p(1) t r oneLine_resolve(4) raw off oc show ?thesis
    by simp
qed

section \<open>The same query twice\<close>

text \<open>Claim C8 fails on the code.  The point (5, 0.0010004) is not on the line from (0,0)
  to (10,0): its squared distance from the line is more than 1e-6.  The point
  (5, 0.0009996) is.  The first query returns \<^verbatim>\<open>ErrPoint1\<close> from the early \<^verbatim>\<open>return\<close> that
  comes before the call of \<^verbatim>\<open>resetGraph\<close>, and leaves the second point joined to the cached
  graph.  In the second run of the same query \<^verbatim>\<open>point2vertex\<close> finds the first point within
  1e-6 of that vertex, both points resolve to it, and the query returns \<^verbatim>\<open>ErrNoPath\<close>.\<close>

theorem repeated_query_differs:
  "findShortestPath (planarSession oneLine) (builtTracer oneLine)
       (5, 10004 / 10000000) (5, 9996 / 10000000)
     = Some ((builtTracer oneLine)\<lparr>mGraph := Some oneLineNearSplice\<rparr>, [], ErrPoint1)
   \<and> findShortestPath (planarSession oneLine) ((builtTracer oneLine)\<lparr>mGraph := Some oneLineNearSplice\<rparr>)
       (5, 10004 / 10000000) (5, 9996 / 10000000)
     = Some (builtTracer oneLine, [], ErrNoPath)"
  by (simp add: builtTracer_oneLine oneLine_graph oneLineNearSplice_def) (simp add: run_defs)

lemma point2vertex_loop_append:
  "point2vertex_loop G (vs @ ws) k pt eps
     = (case point2vertex_loop G vs k pt eps of
          Some i \<Rightarrow> Some i
        | None \<Rightarrow> point2vertex_loop G ws (k + length vs) pt eps)"
  by (induction vs arbitrary: k) (auto split: option.splits)

lemma point2vertex_loop_points:
  "map v_pt vs = map v_pt vs' \<Longrightarrow> point2vertex_loop G vs k pt eps = point2vertex_loop G vs' k pt eps"
proof (induction vs arbitrary: vs' k)
  case Nil
  then show ?case by simp
next
  case (Cons v vs)
  then obtain w ws where "vs' = w # ws" "v_pt w = v_pt v" "map v_pt vs = map v_pt ws"
    by (cases vs') auto
  with Cons.IH [of ws "Suc k"] show ?case by simp
qed

text \<open>The defect behind the two runs, for every geometry: the first point is not on the
  graph, the second point is on an active edge and not at a vertex, and the coordinates
  of the two points differ by less than the epsilon of \<^verbatim>\<open>point2vertex\<close>.  The first query
  returns \<^verbatim>\<open>ErrPoint1\<close> and keeps the splice of the second point; in the session it leaves,
  the same query does not return \<^verbatim>\<open>ErrPoint1\<close>.\<close>

lemma leftover_splice_changes_next_query:
  fixes g :: "'p QgsTracerGraph"
  assumes t: "mGraph t = Some g" and wf: "wfGraph g"
    and p1: "point2vertex (geom C) g p1 defaultEpsilon = None"
      "point2edge (geom C) g p1 defaultEpsilon = None"
    and p2: "point2vertex (geom C) g p2 defaultEpsilon = None"
      "point2edge (geom C) g p2 defaultEpsilon = Some (i, k)"
    and near: "\<bar>ptX (geom C) p2 - ptX (geom C) p1\<bar> < defaultEpsilon"
      "\<bar>ptY (geom C) p2 - ptY (geom C) p1\<bar> < defaultEpsilon"
  shows "\<exists>g2. findShortestPath C t p1 p2 = Some (t\<lparr>mGraph := Some g2\<rparr>, [], ErrPoint1)
          \<and> joinedVertices g2 = joinedVertices g + 1
          \<and> (\<forall>r. findShortestPath C (t\<lparr>mGraph := Some g2\<rparr>) p1 p2 = Some r \<longrightarrow> snd (snd r) \<noteq> ErrPoint1)"
proof -
  let ?G = "geom C" and ?n = "length (g_v g)"
  from joinVertexToGraph_splice [OF wf p2(2)] obtain vs2 c1 c2 where
    j: "joinVertexToGraph ?G g p2
           = Some (\<lparr>g_v = vs2 @ [\<lparr>v_pt = p2, v_edges = [length (g_e g), length (g_e g) + 1]\<rparr>],
                    g_e = g_e g @ [\<lparr>e_v1 = e_v1 (g_e g ! i), e_v2 = ?n, e_coords = c1\<rparr>,
                                   \<lparr>e_v1 = ?n, e_v2 = e_v2 (g_e g ! i), e_coords = c2\<rparr>],
                    inactiveEdges = inactiveEdges g @ [i],
                    joinedVertices = joinedVertices g + 1\<rparr>, Some ?n)"
    and l: "length vs2 = ?n" and pts: "map v_pt vs2 = map v_pt (g_v g)"
    by blast
  define g2 where "g2 = \<lparr>g_v = vs2 @ [\<lparr>v_pt = p2, v_edges = [length (g_e g), length (g_e g) + 1]\<rparr>],
                    g_e = g_e g @ [\<lparr>e_v1 = e_v1 (g_e g ! i), e_v2 = ?n, e_coords = c1\<rparr>,
                                   \<lparr>e_v1 = ?n, e_v2 = e_v2 (g_e g ! i), e_coords = c2\<rparr>],
                    inactiveEdges = inactiveEdges g @ [i],
                    joinedVertices = joinedVertices g + 1\<rparr>"
  have r1: "pointInGraph ?G g p1 = Some (g, None)"
    using p1 by (rule pointInGraph_unresolved)
  have r2: "pointInGraph ?G g p2 = Some (g2, Some ?n)"
    using p2(1) j by (simp add: pointInGraph_def g2_def)
  have first: "findShortestPath C t p1 p2 = Some (t\<lparr>mGraph := Some g2\<rparr>, [], ErrPoint1)"
    by (simp add: findShortestPath_def findShortestPathBody_def init_def t r1 r2)
  have "point2vertex_loop ?G vs2 0 p1 defaultEpsilon = None"
    using p1(1) point2vertex_loop_points [OF pts, of ?G 0 p1 defaultEpsilon]
    by (simp add: point2vertex_def)
  then have "point2vertex ?G g2 p1 defaultEpsilon = Some ?n"
    using near by (simp add: point2vertex_def g2_def point2vertex_loop_append l)
  then have r3: "pointInGraph ?G g2 p1 = Some (g2, Some ?n)"
    by (simp add: pointInGraph_def)
  have second: "snd (snd r) \<noteq> ErrPoint1"
    if "findShortestPath C (t\<lparr>mGraph := Some g2\<rparr>) p1 p2 = Some r" for r
    using that
    by (auto simp: findShortestPath_def findShortestPathBody_def init_def r3 Let_def
        split: option.splits if_splits)
  from first second show ?thesis
    by (intro exI [of _ g2]) (simp add: g2_def)
qed

text \<open>The early \<^verbatim>\<open>return\<close> for \<^verbatim>\<open>ErrPoint2\<close> as well leaves the splice of the first point in
  the cached graph.\<close>

lemma early_return_keeps_splice:
  "findShortestPath (planarSession oneLine) (builtTracer oneLine) (5, 0) (20, 20)
     = Some ((builtTracer oneLine)\<lparr>mGraph := Some oneLineSpliced\<rparr>, [], ErrPoint2)"
  by (simp add: builtTracer_oneLine oneLine_graph oneLineSpliced_def) (simp add: run_defs)

section \<open>End points that coincide\<close>

text \<open>The start (\<open>first\<close>) or the end of a line, and the vertex of an edge at that end.\<close>

definition endPointOf :: "'p geometry \<Rightarrow> bool \<Rightarrow> 'p list \<Rightarrow> 'p" where
  "endPointOf G first line = (if first then startPoint G line else endPoint G line)"

definition endVertexOf :: "bool \<Rightarrow> 'p E \<Rightarrow> nat" where
  "endVertexOf first e = (if first then e_v1 e else e_v2 e)"

lemma makeGraph_loop_snoc:
  "makeGraph_loop G (ls @ [line]) s = makeGraph_step G line (makeGraph_loop G ls s)"
  by (induction ls arbitrary: s) simp_all

lemma find_append:
  "find P (xs @ ys) = (case find P xs of None \<Rightarrow> find P ys | Some x \<Rightarrow> Some x)"
  by (induction xs) simp_all

lemma hashFind_append:
  "hashFind G h p = Some v \<Longrightarrow> hashFind G (h @ x) p = Some v"
  by (auto simp: hashFind_def find_append split: option.splits)

lemma getOrAddVertex_lookup:
  assumes "getOrAddVertex G p (g, h) = (a, g1, h1)"
  shows "(\<exists>x. h1 = h @ x \<and> fst ` set x \<subseteq> {p}) \<and> g_e g1 = g_e g
       \<and> (keyMatch G p p \<longrightarrow> hashFind G h1 p = Some a)"
proof (cases "hashFind G h p")
  case (Some i)
  with assms show ?thesis
    by (auto simp: getOrAddVertex_def)
next
  case None
  with assms have h1: "h1 = h @ [(p, a)]" and g1: "g_e g1 = g_e g"
    by (auto simp: getOrAddVertex_def)
  from None have "find (\<lambda>kv. keyMatch G (fst kv) p) h = None"
    by (simp add: hashFind_def)
  then have "keyMatch G p p \<Longrightarrow> hashFind G h1 p = Some a"
    by (simp add: hashFind_def h1 find_append)
  with h1 g1 show ?thesis by auto
qed

text \<open>After the loop, a lookup of an end point of line \<open>i\<close> that matches itself gives the
  vertex stored in edge \<open>i\<close>.\<close>

lemma makeGraph_loop_lookup:
  fixes G :: "'p geometry" and ls :: "'p list list"
  defines "s \<equiv> makeGraph_loop G ls (emptyGraph, [])"
  shows "length (g_e (fst s)) = length ls
       \<and> fst ` set (snd s) \<subseteq> set (endpoints G ls)
       \<and> (\<forall>i < length ls. \<forall>first. keyMatch G (endPointOf G first (ls ! i)) (endPointOf G first (ls ! i))
             \<longrightarrow> hashFind G (snd s) (endPointOf G first (ls ! i))
                   = Some (endVertexOf first (g_e (fst s) ! i)))"
  unfolding s_def
proof (induction ls rule: rev_induct)
  case Nil
  then show ?case by (simp add: emptyGraph_def endpoints_def)
next
  case (snoc line ls)
  obtain g h where s: "makeGraph_loop G ls (emptyGraph, []) = (g, h)"
    by (cases "makeGraph_loop G ls (emptyGraph, [])") auto
  from snoc [unfolded s] have len: "length (g_e g) = length ls"
    and keys: "fst ` set h \<subseteq> set (endpoints G ls)"
    and old: "\<And>i first. i < length ls
        \<Longrightarrow> keyMatch G (endPointOf G first (ls ! i)) (endPointOf G first (ls ! i))
        \<Longrightarrow> hashFind G h (endPointOf G first (ls ! i)) = Some (endVertexOf first (g_e g ! i))"
    by simp_all
  obtain a g1 h1 where s1: "getOrAddVertex G (startPoint G line) (g, h) = (a, g1, h1)"
    by (cases "getOrAddVertex G (startPoint G line) (g, h)") auto
  obtain b g2 h2 where s2: "getOrAddVertex G (endPoint G line) (g1, h1) = (b, g2, h2)"
    by (cases "getOrAddVertex G (endPoint G line) (g1, h1)") auto
  from getOrAddVertex_lookup [OF s1] obtain x1 where
    l1: "h1 = h @ x1" "fst ` set x1 \<subseteq> {startPoint G line}" "g_e g1 = g_e g"
      "keyMatch G (startPoint G line) (startPoint G line) \<longrightarrow> hashFind G h1 (startPoint G line) = Some a"
    by blast
  from getOrAddVertex_lookup [OF s2] obtain x2 where
    l2: "h2 = h1 @ x2" "fst ` set x2 \<subseteq> {endPoint G line}" "g_e g2 = g_e g1"
      "keyMatch G (endPoint G line) (endPoint G line) \<longrightarrow> hashFind G h2 (endPoint G line) = Some b"
    by blast
  define e where "e = \<lparr>e_v1 = a, e_v2 = b, e_coords = map (\<lambda>i. line ! i) [0..<length line]\<rparr>"
  define g' where "g' = linkEdge b (length (g_e g2)) (linkEdge a (length (g_e g2)) (g2\<lparr>g_e := g_e g2 @ [e]\<rparr>))"
  have step: "makeGraph_loop G (ls @ [line]) (emptyGraph, []) = (g', h2)"
    by (simp add: makeGraph_loop_snoc s makeGraph_step_def s1 s2 Let_def e_def g'_def)
  have ge: "g_e g' = g_e g @ [e]"
    by (simp add: g'_def l1 l2)
  have eps: "endpoints G (ls @ [line]) = endpoints G ls @ [startPoint G line, endPoint G line]"
    by (simp add: endpoints_def)
  have k2: "fst ` set h2 \<subseteq> set (endpoints G (ls @ [line]))"
    using keys l1(1,2) l2(1,2) by (auto simp: eps)
  have look: "hashFind G h2 (endPointOf G first ((ls @ [line]) ! i)) = Some (endVertexOf first (g_e g' ! i))"
    if i: "i < length (ls @ [line])"
      and rf: "keyMatch G (endPointOf G first ((ls @ [line]) ! i)) (endPointOf G first ((ls @ [line]) ! i))"
    for i first
  proof (cases "i < length ls")
    case True
    with rf have "keyMatch G (endPointOf G first (ls ! i)) (endPointOf G first (ls ! i))"
      by (simp add: nth_append)
    from old [OF True this] have "hashFind G (h @ x1 @ x2) (endPointOf G first (ls ! i))
        = Some (endVertexOf first (g_e g ! i))"
      by (rule hashFind_append)
    with True len show ?thesis
      by (simp add: l1(1) l2(1) ge nth_append)
  next
    case False
    with i have il: "i = length ls" by simp
    show ?thesis
    proof (cases first)
      case True
      with rf il l1(4) have "hashFind G h1 (startPoint G line) = Some a"
        by (simp add: endPointOf_def)
      then have "hashFind G (h1 @ x2) (startPoint G line) = Some a"
        by (rule hashFind_append)
      with True il len show ?thesis
        by (simp add: l2(1) ge endPointOf_def endVertexOf_def e_def nth_append)
    next
      case False
      with rf il l2(4) have "hashFind G h2 (endPoint G line) = Some b"
        by (simp add: endPointOf_def)
      with False il len show ?thesis
        by (simp add: ge endPointOf_def endVertexOf_def e_def nth_append)
    qed
  qed
  from len ge k2 look show ?case
    by (simp add: step)
qed





text \<open>\<^verbatim>\<open>QHash\<close> asks of its key type that \<^verbatim>\<open>operator==\<close> is an equivalence and that equal keys
  have equal hashes.  With such a geometry the conditions above hold for every two end
  points that \<^verbatim>\<open>operator==\<close> accepts: they are one vertex.\<close>

lemma makeGraph_shares_equal_endpoints:
  fixes ls :: "'p list list"
  assumes i: "i < length ls" and j: "j < length ls"
    and refl: "\<And>x. pointEq G x x"
    and sym: "\<And>x y. pointEq G x y \<Longrightarrow> pointEq G y x"
    and trans: "\<And>x y z. pointEq G x y \<Longrightarrow> pointEq G y z \<Longrightarrow> pointEq G x z"
    and hash: "\<And>x y. pointEq G x y \<Longrightarrow> qHash G x = qHash G y"
    and pq: "pointEq G (endPointOf G s (ls ! i)) (endPointOf G s' (ls ! j))"
  shows "endVertexOf s (g_e (makeGraph G ls) ! i) = endVertexOf s' (g_e (makeGraph G ls) ! j)"
proof -
  let ?st = "makeGraph_loop G ls (emptyGraph, [])"
  let ?p = "endPointOf G s (ls ! i)" and ?q = "endPointOf G s' (ls ! j)"
  have km: "keyMatch G x y \<longleftrightarrow> pointEq G x y" for x y
    using hash [of x y] by (auto simp: keyMatch_def)
  from makeGraph_loop_lookup [of G ls]
  have look: "\<And>i first. i < length ls
        \<Longrightarrow> keyMatch G (endPointOf G first (ls ! i)) (endPointOf G first (ls ! i))
        \<Longrightarrow> hashFind G (snd ?st) (endPointOf G first (ls ! i))
              = Some (endVertexOf first (g_e (fst ?st) ! i))"
    by simp_all
  have "keyMatch G k ?p = keyMatch G k ?q" for k
    unfolding km using pq sym trans by blast
  then have "hashFind G (snd ?st) ?p = hashFind G (snd ?st) ?q"
    by (simp add: hashFind_def)
  with look [OF i] look [OF j] refl show ?thesis
    by (simp add: makeGraph_def km)
qed



end
